theory Spec2Isabelle
  imports Complex_Main
begin

section \<open>Pieces and the display-object operations used on them\<close>

text \<open>
  A \<open>Piece\<close> (src/objects/Piece.ts) is a sprite with the puzzle fields of the class and
  the display-object properties that the puzzle code reads and writes: position, angle,
  visibility, input state, depth, scroll factor, alpha, tint, scale. JavaScript numbers are
  modelled as reals (integers where the code only stores integer constants). Two pieces
  of state live outside the sprite in the source and are kept per piece here: the layer
  of \<open>PuzzleLayerStack\<close> that currently holds the sprite, and the interaction handle that
  \<open>attachPieceInteraction\<close> stores on the sprite under \<open>INTERACTION_KEY\<close>.
\<close>

datatype layer = NoLayer | ActiveLayer | SolvedLayer | OverlayLayer

datatype binding = BoardInteraction | PocketInteraction

record piece =
  pos_x :: real
  pos_y :: real
  angle :: real
  correctX :: real
  correctY :: real
  isSolved :: bool
  logicalWidth :: real
  logicalHeight :: real
  visible :: bool
  input_enabled :: bool
  depth :: int
  scrollFactorX :: real
  scrollFactorY :: real
  alpha :: real
  tintTopLeft :: nat
  scale :: real
  layer :: layer
  handle :: "binding option"

definition setVisible :: "bool \<Rightarrow> piece \<Rightarrow> piece" where
  "setVisible v p = p\<lparr>visible := v\<rparr>"

definition setDepth :: "int \<Rightarrow> piece \<Rightarrow> piece" where
  "setDepth d p = p\<lparr>depth := d\<rparr>"

definition setTint :: "nat \<Rightarrow> piece \<Rightarrow> piece" where
  "setTint t p = p\<lparr>tintTopLeft := t\<rparr>"

definition setAlpha :: "real \<Rightarrow> piece \<Rightarrow> piece" where
  "setAlpha a p = p\<lparr>alpha := a\<rparr>"

definition setScale :: "real \<Rightarrow> piece \<Rightarrow> piece" where
  "setScale s p = p\<lparr>scale := s\<rparr>"

definition setScrollFactor :: "real \<Rightarrow> real \<Rightarrow> piece \<Rightarrow> piece" where
  "setScrollFactor sx sy p = p\<lparr>scrollFactorX := sx, scrollFactorY := sy\<rparr>"

text \<open>\<open>setInteractive\<close> and \<open>disableInteractive\<close>: only \<open>input.enabled\<close> is observed.\<close>

definition setInteractive :: "piece \<Rightarrow> piece" where
  "setInteractive p = p\<lparr>input_enabled := True\<rparr>"

definition disableInteractive :: "piece \<Rightarrow> piece" where
  "disableInteractive p = p\<lparr>input_enabled := False\<rparr>"

subsection \<open>PuzzleLayerStack\<close>

definition moveToActive :: "piece \<Rightarrow> piece" where
  "moveToActive p = setDepth 1 (p\<lparr>layer := ActiveLayer\<rparr>)"

definition moveToSolved :: "piece \<Rightarrow> piece" where
  "moveToSolved p = setDepth 0 (p\<lparr>layer := SolvedLayer\<rparr>)"

definition addToOverlay :: "piece \<Rightarrow> piece" where
  "addToOverlay p = p\<lparr>layer := OverlayLayer\<rparr>"

definition removeFromOverlay :: "piece \<Rightarrow> piece" where
  "removeFromOverlay p = (if layer p = OverlayLayer then p\<lparr>layer := NoLayer\<rparr> else p)"

subsection \<open>PieceInteractionBehavior\<close>

text \<open>
  \<open>attachPieceInteraction\<close> keeps an existing handle (and only re-enables input);
  otherwise it enables input and stores the new handle. The handle records which snap
  system and options the handlers were built with.
\<close>

definition attachPieceInteraction :: "binding \<Rightarrow> piece \<Rightarrow> piece" where
  "attachPieceInteraction b p =
     (case handle p of
        Some existing \<Rightarrow> setInteractive p
      | None \<Rightarrow> (setInteractive p)\<lparr>handle := Some b\<rparr>)"

definition detachPieceInteraction :: "piece \<Rightarrow> piece" where
  "detachPieceInteraction p = p\<lparr>handle := None\<rparr>"

subsection \<open>The piece operations of PuzzleBoard\<close>

definition setPieceSolved :: "piece \<Rightarrow> piece" where
  "setPieceSolved p =
     setTint 0xddffdd (moveToSolved (disableInteractive (p\<lparr>isSolved := True\<rparr>)))"

definition movePieceToOverlay :: "piece \<Rightarrow> piece" where
  "movePieceToOverlay p = addToOverlay p"

definition restorePieceLayer :: "piece \<Rightarrow> piece" where
  "restorePieceLayer p =
     (let q = removeFromOverlay p in if isSolved q then moveToSolved q else moveToActive q)"

definition enablePieceInteraction :: "piece \<Rightarrow> piece" where
  "enablePieceInteraction p =
     setAlpha 1 (setInteractive (attachPieceInteraction BoardInteraction (detachPieceInteraction p)))"

section \<open>SnapSystem\<close>

text \<open>\<open>Phaser.Math.Distance.Between\<close>: the Euclidean distance of two points.\<close>

definition distance_between :: "real \<Rightarrow> real \<Rightarrow> real \<Rightarrow> real \<Rightarrow> real" where
  "distance_between x1 y1 x2 y2 = sqrt ((x1 - x2) * (x1 - x2) + (y1 - y2) * (y1 - y2))"

record snap_system =
  snapDistance :: real
  requireAngle0 :: bool
  solvedTint :: nat
  onSolved :: "(piece \<Rightarrow> piece) option"

text \<open>The constructor's defaults (\<open>options = {}\<close>).\<close>

definition default_snap_system :: snap_system where
  "default_snap_system =
     \<lparr>snapDistance = 30, requireAngle0 = True, solvedTint = 0xddffdd, onSolved = None\<rparr>"

definition canSnap :: "snap_system \<Rightarrow> piece \<Rightarrow> bool" where
  "canSnap s p =
     (if isSolved p then False
      else if distance_between (pos_x p) (pos_y p) (correctX p) (correctY p) \<ge> snapDistance s
        then False
      else if requireAngle0 s \<and> angle p \<noteq> 0 then False
      else True)"

definition applySolvedState :: "snap_system \<Rightarrow> piece \<Rightarrow> piece" where
  "applySolvedState s p =
     (let p1 = p\<lparr>isSolved := True\<rparr>;
          p2 = p1\<lparr>pos_x := correctX p1\<rparr>;
          p3 = p2\<lparr>pos_y := correctY p2\<rparr>;
          p4 = p3\<lparr>angle := 0\<rparr>;
          p5 = setTint (solvedTint s) (setDepth 0 (disableInteractive p4))
      in case onSolved s of None \<Rightarrow> p5 | Some f \<Rightarrow> f p5)"

definition trySnap :: "snap_system \<Rightarrow> piece \<Rightarrow> bool \<times> piece" where
  "trySnap s p = (if \<not> canSnap s p then (False, p) else (True, applySolvedState s p))"

text \<open>A scattered piece lying four units from its target, used to exercise the snap rule.\<close>

definition loose_piece :: piece where
  "loose_piece =
     \<lparr>pos_x = 104, pos_y = 200, angle = 0, correctX = 100, correctY = 200, isSolved = False,
      logicalWidth = 50, logicalHeight = 40, visible = True, input_enabled = True, depth = 1,
      scrollFactorX = 1, scrollFactorY = 1, alpha = 1, tintTopLeft = 0xffffff, scale = 1,
      layer = ActiveLayer, handle = Some BoardInteraction\<rparr>"

section \<open>ImageSplitter: the edge shape plan\<close>

text \<open>
  \<open>splitImage\<close> builds two matrices of edge shapes, zero at first, and fills the internal
  entries with \<open>Math.random() > 0.5 ? 1 : -1\<close>. The random source is the sequence
  \<open>rnd\<close>: \<open>rnd k\<close> tells whether the \<open>k\<close>-th call of \<open>Math.random()\<close> was above 0.5; the
  loops draw from it in the order of the source. The grid size \<open>cols\<close>, \<open>rows\<close> is
  taken as given. All writes of the loops are inside the matrices.
\<close>

definition random_shape :: "bool \<Rightarrow> int" where
  "random_shape b = (if b then 1 else - 1)"

definition set_cell :: "nat \<Rightarrow> nat \<Rightarrow> int \<Rightarrow> int list list \<Rightarrow> int list list" where
  "set_cell c r v M = M[c := (M ! c)[r := v]]"

fun fill_step :: "(nat \<Rightarrow> bool) \<Rightarrow> nat \<Rightarrow> nat \<Rightarrow> int list list \<times> nat \<Rightarrow> int list list \<times> nat" where
  "fill_step rnd c r (M, k) = (set_cell c r (random_shape (rnd k)) M, Suc k)"

definition fill_horizontal :: "(nat \<Rightarrow> bool) \<Rightarrow> nat \<Rightarrow> nat \<Rightarrow> int list list \<times> nat \<Rightarrow> int list list \<times> nat" where
  "fill_horizontal rnd cols rows st = fold (\<lambda>c. fold (\<lambda>r. fill_step rnd c r) [1..<rows]) [0..<cols] st"

definition fill_vertical :: "(nat \<Rightarrow> bool) \<Rightarrow> nat \<Rightarrow> nat \<Rightarrow> int list list \<times> nat \<Rightarrow> int list list \<times> nat" where
  "fill_vertical rnd cols rows st = fold (\<lambda>c. fold (\<lambda>r. fill_step rnd c r) [0..<rows]) [1..<cols] st"

definition edge_plan :: "(nat \<Rightarrow> bool) \<Rightarrow> nat \<Rightarrow> nat \<Rightarrow> int list list \<times> int list list" where
  "edge_plan rnd cols rows =
     (let hs = fill_horizontal rnd cols rows (replicate cols (replicate (rows + 1) 0), 0);
          vs = fill_vertical rnd cols rows (replicate (cols + 1) (replicate rows 0), snd hs)
      in (fst hs, fst vs))"

record shapes =
  shape_top :: int
  shape_right :: int
  shape_bottom :: int
  shape_left :: int

definition piece_shapes :: "int list list \<times> int list list \<Rightarrow> nat \<Rightarrow> nat \<Rightarrow> shapes" where
  "piece_shapes plan col row =
     (let horizontalShapes = fst plan; verticalShapes = snd plan
      in \<lparr>shape_top = - (horizontalShapes ! col ! row),
          shape_right = verticalShapes ! (col + 1) ! row,
          shape_bottom = horizontalShapes ! col ! (row + 1),
          shape_left = - (verticalShapes ! col ! row)\<rparr>)"

section \<open>PocketManager\<close>

text \<open>
  The pocket records follow the interfaces \<open>PocketPieceState\<close>, \<open>PocketTemplate\<close> and
  \<open>PocketState\<close>. Optional fields are options. \<open>pieceLayout\<close> is an object keyed by piece
  id: an association list read with \<open>map_of\<close>, whose \<open>Object.keys\<close> are the distinct
  keys in ascending order.
\<close>

record world_pos =
  wp_x :: real
  wp_y :: real
  wp_angle :: real

record pocket_piece_state =
  pieceId :: nat
  ps_angle :: real
  slotIndex :: "nat option"
  lastWorldPos :: "world_pos option"

record grid_cell =
  gridRow :: int
  gridCol :: int

record crop_rect =
  crop_x :: real
  crop_y :: real
  crop_w :: real
  crop_h :: real

record pocket_template =
  pieceLayout :: "(nat \<times> grid_cell) list"
  capturedAt :: nat
  imageKey :: string
  crop :: crop_rect
  solvedIds :: "nat list"

record pocket_state =
  pocket_id :: nat
  pieces :: "pocket_piece_state list"
  template :: "pocket_template option"

text \<open>The snapshot that \<open>PocketFocusMode\<close> keeps of a piece while a pocket is open.\<close>

record baseline =
  b_visible :: bool
  b_interactive :: bool
  b_depth :: int
  b_scrollFactorX :: real
  b_scrollFactorY :: real
  b_alpha :: real
  b_tintTopLeft :: nat

text \<open>
  One record holds the state of the three objects that work on the same pieces: the board
  (its piece list, whose indices are the piece ids, and the position of its container), the
  scene's size, the pocket manager (\<open>attached\<close> says that \<open>attach\<close> has set its board and
  scene) and the focus mode. Writing to local storage (\<open>persist\<close>), sound and the scene
  events change none of this state and are left out.
\<close>

record game =
  board_pieces :: "piece list"
  containerX :: real
  containerY :: real
  scaleWidth :: real
  scaleHeight :: real
  pockets :: "pocket_state list"
  activePocket :: nat
  attached :: bool
  openPocketIdx :: "nat option"
  baselineCaptured :: bool
  hiddenPieces :: "nat list"
  pocketPieces :: "nat list"
  movedToOverlay :: "nat set"
  releasedToWorld :: "nat list"
  prevPieceState :: "nat \<rightharpoonup> baseline"

definition maxPiecesPerPocket :: nat where
  "maxPiecesPerPocket = 16"

text \<open>\<open>Array.prototype.findIndex\<close>, with \<open>None\<close> for \<open>-1\<close>; \<open>splice(k, 1)\<close>; \<open>splice(k, 0, x)\<close>.\<close>

fun findIndex :: "('a \<Rightarrow> bool) \<Rightarrow> 'a list \<Rightarrow> nat option" where
  "findIndex P [] = None"
| "findIndex P (x # xs) = (if P x then Some 0 else map_option Suc (findIndex P xs))"

definition splice_out :: "nat \<Rightarrow> 'a list \<Rightarrow> 'a list" where
  "splice_out k xs = take k xs @ drop (Suc k) xs"

definition splice_in :: "nat \<Rightarrow> 'a \<Rightarrow> 'a list \<Rightarrow> 'a list" where
  "splice_in k x xs = take k xs @ x # drop k xs"


definition layout_ids :: "pocket_template \<Rightarrow> nat list" where
  "layout_ids t = sort (remdups (map fst (pieceLayout t)))"

definition getGridToWorld :: "game \<Rightarrow> int \<Rightarrow> int \<Rightarrow> real \<Rightarrow> real \<Rightarrow> real \<times> real" where
  "getGridToWorld g col row pieceW pieceH =
     (containerX g + of_int col * pieceW, containerY g + of_int row * pieceH)"

definition findNextFreeSlotIndex :: "pocket_state \<Rightarrow> nat option" where
  "findNextFreeSlotIndex pocket =
     (let used = List.map_filter slotIndex (pieces pocket)
      in List.find (\<lambda>i. i \<notin> set used) [0..<16])"

text \<open>
  \<open>stashPiece(piece, targetPocket)\<close>. The piece argument is a reference: the index of the
  sprite in the board's list, or an index beyond the list for a sprite that is not on the
  board (\<open>indexOf\<close> gives \<open>-1\<close>). A pocket index outside the pocket array makes
  \<open>pocket.pieces\<close> throw a \<open>TypeError\<close>, the result \<open>None\<close>.
\<close>

definition stashPiece :: "nat \<Rightarrow> nat option \<Rightarrow> game \<Rightarrow> (bool \<times> game) option" where
  "stashPiece pieceRef targetPocket g =
     (if \<not> attached g then Some (False, g)
      else
        let pocketIdx = (case targetPocket of Some t \<Rightarrow> t | None \<Rightarrow> activePocket g) in
        if pocketIdx \<ge> length (pockets g) then None
        else
          let pocket = pockets g ! pocketIdx in
          if length (pieces pocket) \<ge> maxPiecesPerPocket then Some (False, g)
          else if pieceRef \<ge> length (board_pieces g) then Some (False, g)
          else if list_ex (\<lambda>p. pieceId p = pieceRef) (pieces pocket) then Some (False, g)
          else
            case findNextFreeSlotIndex pocket of
              None \<Rightarrow> Some (False, g)
            | Some slot \<Rightarrow>
                let piece = board_pieces g ! pieceRef;
                    state = \<lparr>pieceId = pieceRef, ps_angle = angle piece, slotIndex = Some slot,
                             lastWorldPos = Some \<lparr>wp_x = pos_x piece, wp_y = pos_y piece,
                                                  wp_angle = angle piece\<rparr>\<rparr>;
                    piece' = setAlpha 1 (setScale 1 (setVisible False (disableInteractive piece)))
                in Some (True,
                     g\<lparr>board_pieces := (board_pieces g)[pieceRef := piece'],
                       pockets := (pockets g)[pocketIdx := pocket\<lparr>pieces := pieces pocket @ [state]\<rparr>]\<rparr>))"

text \<open>
  \<open>transferPiece\<close>: an index outside the pocket array gives \<open>undefined\<close> and the early
  \<open>return false\<close>. The removal from \<open>from\<close> happens before the slot search, and is undone
  when the search finds nothing.
\<close>

definition transferPiece :: "nat \<Rightarrow> nat \<Rightarrow> nat \<Rightarrow> game \<Rightarrow> bool \<times> game" where
  "transferPiece fromPocketIdx toPocketIdx pid g =
     (if fromPocketIdx = toPocketIdx then (False, g)
      else if fromPocketIdx \<ge> length (pockets g) \<or> toPocketIdx \<ge> length (pockets g)
        then (False, g)
      else
        let from = pockets g ! fromPocketIdx; to = pockets g ! toPocketIdx in
        if length (pieces to) \<ge> maxPiecesPerPocket then (False, g)
        else if list_ex (\<lambda>p. pieceId p = pid) (pieces to) then (False, g)
        else
          case findIndex (\<lambda>p. pieceId p = pid) (pieces from) of
            None \<Rightarrow> (False, g)
          | Some stateIdx \<Rightarrow>
              let state = pieces from ! stateIdx;
                  from1 = from\<lparr>pieces := splice_out stateIdx (pieces from)\<rparr>;
                  g1 = g\<lparr>pockets := (pockets g)[fromPocketIdx := from1]\<rparr>
              in case findNextFreeSlotIndex (pockets g1 ! toPocketIdx) of
                   None \<Rightarrow>
                     (False,
                      g1\<lparr>pockets := (pockets g1)[fromPocketIdx :=
                                      from1\<lparr>pieces := splice_in stateIdx state (pieces from1)\<rparr>]\<rparr>)
                 | Some slot \<Rightarrow>
                     let to1 = pockets g1 ! toPocketIdx in
                     (True,
                      g1\<lparr>pockets := (pockets g1)[toPocketIdx :=
                                      to1\<lparr>pieces := pieces to1 @ [state\<lparr>slotIndex := Some slot\<rparr>]\<rparr>]\<rparr>))"

text \<open>
  The body shared by \<open>retrievePiece\<close> and \<open>retrieveAll\<close>. When the stored state has no
  \<open>lastWorldPos\<close> the piece goes near the centre of the screen, displaced by two draws
  \<open>Phaser.Math.Between(-120, 120)\<close>, here the pair \<open>jitter\<close>.
\<close>

definition returnToBoard :: "game \<Rightarrow> pocket_piece_state \<Rightarrow> int \<times> int \<Rightarrow> piece \<Rightarrow> piece" where
  "returnToBoard g state jitter piece =
     (let p1 = enablePieceInteraction (setVisible True piece);
          p2 = p1\<lparr>isSolved := False\<rparr>;
          p3 = setAlpha 1 (setTint 0xffffff (setDepth 1 p2));
          p4 = p3\<lparr>angle := ps_angle state\<rparr>;
          p5 = setScrollFactor 1 1 (setScale 1 p4)
      in case lastWorldPos state of
           Some w \<Rightarrow> p5\<lparr>pos_x := wp_x w, pos_y := wp_y w\<rparr>
         | None \<Rightarrow> p5\<lparr>pos_x := scaleWidth g / 2 + of_int (fst jitter),
                       pos_y := scaleHeight g / 2 + of_int (snd jitter)\<rparr>)"

definition retrievePiece :: "nat \<Rightarrow> nat \<Rightarrow> int \<times> int \<Rightarrow> game \<Rightarrow> game option" where
  "retrievePiece pocketIdx pid jitter g =
     (if \<not> attached g then Some g
      else if pocketIdx \<ge> length (pockets g) then None
      else
        let pocket = pockets g ! pocketIdx in
        case findIndex (\<lambda>p. pieceId p = pid) (pieces pocket) of
          None \<Rightarrow> Some g
        | Some stateIdx \<Rightarrow>
            let state = pieces pocket ! stateIdx in
            if pieceId state \<ge> length (board_pieces g) then Some g
            else
              let piece = board_pieces g ! pieceId state in
              Some (g\<lparr>board_pieces := (board_pieces g)[pieceId state :=
                                         returnToBoard g state jitter piece],
                      pockets := (pockets g)[pocketIdx :=
                                   pocket\<lparr>pieces := splice_out stateIdx (pieces pocket)\<rparr>]\<rparr>))"

definition retrieveAll_step ::
  "game \<Rightarrow> (nat \<Rightarrow> int \<times> int) \<Rightarrow> nat \<times> pocket_piece_state \<Rightarrow> piece list \<Rightarrow> piece list" where
  "retrieveAll_step g jitters ks ps =
     (let state = snd ks in
      if pieceId state \<ge> length ps then ps
      else ps[pieceId state := returnToBoard g state (jitters (fst ks)) (ps ! pieceId state)])"

definition retrieveAll :: "nat \<Rightarrow> (nat \<Rightarrow> int \<times> int) \<Rightarrow> game \<Rightarrow> game option" where
  "retrieveAll pocketIdx jitters g =
     (if \<not> attached g then Some g
      else if pocketIdx \<ge> length (pockets g) then None
      else
        let pocket = pockets g ! pocketIdx in
        if pieces pocket = [] then Some g
        else
          Some (g\<lparr>board_pieces := fold (retrieveAll_step g jitters)
                                    (enumerate 0 (pieces pocket)) (board_pieces g),
                  pockets := (pockets g)[pocketIdx := pocket\<lparr>pieces := []\<rparr>]\<rparr>))"

text \<open>
  \<open>isTemplateComplete\<close> and \<open>canCaptureTemplate\<close> read the pocket with \<open>?.\<close>, so an index
  outside the array is a pocket without template.
\<close>

definition template_at :: "game \<Rightarrow> nat \<Rightarrow> pocket_template option" where
  "template_at g pocketIdx =
     (if pocketIdx < length (pockets g) then template (pockets g ! pocketIdx) else None)"

definition isTemplateComplete :: "nat \<Rightarrow> game \<Rightarrow> bool" where
  "isTemplateComplete pocketIdx g =
     (if \<not> attached g then False
      else
        case template_at g pocketIdx of
          None \<Rightarrow> True
        | Some t \<Rightarrow>
            let ids = layout_ids t in
            if ids = [] then True
            else list_all (\<lambda>i. i < length (board_pieces g) \<and> isSolved (board_pieces g ! i)) ids)"

definition canCaptureTemplate :: "nat \<Rightarrow> game \<Rightarrow> bool" where
  "canCaptureTemplate pocketIdx g =
     (let hasTemplate = (template_at g pocketIdx \<noteq> None) in
      if \<not> hasTemplate then True else isTemplateComplete pocketIdx g)"

text \<open>The placement of one piece on its template cell, as both functions below write it.\<close>

definition placeAtCell :: "game \<Rightarrow> grid_cell \<Rightarrow> piece \<Rightarrow> piece" where
  "placeAtCell g cell p =
     (let pos = getGridToWorld g (gridCol cell) (gridRow cell) (logicalWidth p) (logicalHeight p)
      in p\<lparr>pos_x := fst pos + logicalWidth p / 2, pos_y := snd pos + logicalHeight p / 2\<rparr>)"

definition autoInsert_step :: "game \<Rightarrow> pocket_template \<Rightarrow> pocket_piece_state \<Rightarrow> piece list \<Rightarrow> piece list" where
  "autoInsert_step g t state ps =
     (if pieceId state \<ge> length ps then ps
      else
        let p1 = setVisible True (setPieceSolved (ps ! pieceId state));
            p2 = p1\<lparr>angle := 0\<rparr>;
            p3 = (case map_of (pieceLayout t) (pieceId state) of
                    Some cell \<Rightarrow> placeAtCell g cell p2
                  | None \<Rightarrow> p2\<lparr>pos_x := correctX p2, pos_y := correctY p2\<rparr>)
        in ps[pieceId state := p3])"

definition autoInsertIfSolved :: "nat \<Rightarrow> game \<Rightarrow> game option" where
  "autoInsertIfSolved pocketIdx g =
     (if \<not> attached g then Some g
      else if pocketIdx \<ge> length (pockets g) then None
      else
        let pocket = pockets g ! pocketIdx in
        case template pocket of
          None \<Rightarrow> Some g
        | Some t \<Rightarrow>
            let templateIds = layout_ids t;
                unsolvedIds = filter (\<lambda>i. i \<notin> set (solvedIds t)) templateIds
            in if length (pieces pocket) \<noteq> length unsolvedIds then Some g
               else
                 Some (g\<lparr>board_pieces := fold (autoInsert_step g t) (pieces pocket) (board_pieces g),
                         pockets := (pockets g)[pocketIdx :=
                                      pocket\<lparr>pieces := [], template := None\<rparr>]\<rparr>))"


text \<open>Sequences of stash, transfer and retrieve calls; a throwing call ends the run.\<close>

datatype pocket_op =
    Stash nat "nat option"
  | Transfer nat nat nat
  | RetrievePiece nat nat "int \<times> int"
  | RetrieveAll nat "nat \<Rightarrow> int \<times> int"

fun apply_op :: "pocket_op \<Rightarrow> game \<Rightarrow> game option" where
  "apply_op (Stash pieceRef targetPocket) g = map_option snd (stashPiece pieceRef targetPocket g)"
| "apply_op (Transfer fromIdx toIdx pid) g = Some (snd (transferPiece fromIdx toIdx pid g))"
| "apply_op (RetrievePiece pocketIdx pid jitter) g = retrievePiece pocketIdx pid jitter g"
| "apply_op (RetrieveAll pocketIdx jitters) g = retrieveAll pocketIdx jitters g"

fun run_ops :: "pocket_op list \<Rightarrow> game \<Rightarrow> game option" where
  "run_ops [] g = Some g"
| "run_ops (op # ops) g = (case apply_op op g of None \<Rightarrow> None | Some g' \<Rightarrow> run_ops ops g')"

text \<open>
  The slot invariant of one pocket: every entry has a slot index below 16, and neither a
  slot index nor a piece id occurs twice.
\<close>

definition pocket_ok :: "pocket_state \<Rightarrow> bool" where
  "pocket_ok pocket \<longleftrightarrow>
     list_all (\<lambda>e. case slotIndex e of None \<Rightarrow> False | Some s \<Rightarrow> s < 16) (pieces pocket)
     \<and> distinct (map slotIndex (pieces pocket))
     \<and> distinct (map pieceId (pieces pocket))"

definition pockets_ok :: "game \<Rightarrow> bool" where
  "pockets_ok g \<longleftrightarrow> list_all pocket_ok (pockets g)"

section \<open>PocketFocusMode\<close>

definition vividTint :: nat where
  "vividTint = 0xffffff"

definition focusSolvedTint :: nat where
  "focusSolvedTint = 0xddffdd"

definition baseline_of :: "piece \<Rightarrow> baseline" where
  "baseline_of p =
     \<lparr>b_visible = visible p, b_interactive = input_enabled p, b_depth = depth p,
      b_scrollFactorX = scrollFactorX p, b_scrollFactorY = scrollFactorY p,
      b_alpha = alpha p, b_tintTopLeft = tintTopLeft p\<rparr>"

text \<open>What \<open>applyVisibilityAndInteraction\<close> does to a piece of the open pocket.\<close>

definition showInPocket :: "piece \<Rightarrow> piece" where
  "showInPocket p =
     (let p1 = setVisible True (movePieceToOverlay p);
          p2 = p1\<lparr>isSolved := False\<rparr>;
          p3 = setScrollFactor 1 1 (setAlpha 1 (setTint vividTint p2));
          p4 = attachPieceInteraction PocketInteraction (detachPieceInteraction p3)
      in setDepth 950 (setInteractive p4))"

text \<open>The body of the \<open>forEach\<close> of \<open>applyVisibilityAndInteraction\<close> for the piece \<open>i\<close>.\<close>

definition applyVisibility_step ::
  "bool \<Rightarrow> nat list \<Rightarrow> nat list \<Rightarrow> bool \<Rightarrow> nat \<Rightarrow> game \<Rightarrow> game" where
  "applyVisibility_step captureBaseline pocketIds templateIds hasTemplate i g =
     (let piece = board_pieces g ! i;
          g1 = (if captureBaseline \<and> \<not> baselineCaptured g \<and> prevPieceState g i = None
                then g\<lparr>prevPieceState := (prevPieceState g)(i \<mapsto> baseline_of piece)\<rparr>
                else g)
      in if i \<in> set pocketIds then
           g1\<lparr>board_pieces := (board_pieces g1)[i := showInPocket piece],
              movedToOverlay := insert i (movedToOverlay g1),
              pocketPieces := pocketPieces g1 @ [i]\<rparr>
         else
           let piece1 = (if i \<in> movedToOverlay g1 then restorePieceLayer piece else piece);
               g2 = (if i \<in> movedToOverlay g1
                     then g1\<lparr>movedToOverlay := movedToOverlay g1 - {i}\<rparr> else g1)
           in if i \<in> set (releasedToWorld g2) then
                g2\<lparr>board_pieces := (board_pieces g2)[i := disableInteractive (setVisible False piece1)]\<rparr>
              else if isSolved piece1 then
                let shouldShowSolved = (if hasTemplate then i \<in> set templateIds else False)
                in g2\<lparr>board_pieces := (board_pieces g2)[i :=
                        setAlpha 1 (setTint focusSolvedTint (setDepth 0
                          (disableInteractive (setVisible shouldShowSolved piece1))))]\<rparr>
              else
                g2\<lparr>board_pieces := (board_pieces g2)[i := disableInteractive (setVisible False piece1)],
                   hiddenPieces := hiddenPieces g2 @ [i]\<rparr>)"

text \<open>
  \<open>applyVisibilityAndInteraction\<close>: \<open>None\<close> is the \<open>TypeError\<close> of reading \<open>pocket.pieces\<close>
  when the open index is outside the pocket array.
\<close>

definition applyVisibilityAndInteraction :: "bool \<Rightarrow> game \<Rightarrow> game option" where
  "applyVisibilityAndInteraction captureBaseline g =
     (case openPocketIdx g of
        None \<Rightarrow> Some g
      | Some idx \<Rightarrow>
          if idx \<ge> length (pockets g) then None
          else
            let pocket = pockets g ! idx;
                pocketIds = map pieceId (pieces pocket);
                templateIds = (case template pocket of None \<Rightarrow> [] | Some t \<Rightarrow> layout_ids t);
                hasTemplate = (template pocket \<noteq> None);
                g0 = g\<lparr>hiddenPieces := [], pocketPieces := []\<rparr>;
                g1 = fold (applyVisibility_step captureBaseline pocketIds templateIds hasTemplate)
                       [0..<length (board_pieces g0)] g0
            in Some (if captureBaseline then g1\<lparr>baselineCaptured := True\<rparr> else g1))"

definition close_step :: "nat \<Rightarrow> game \<Rightarrow> game" where
  "close_step i g =
     (case prevPieceState g i of
        None \<Rightarrow> g
      | Some prev \<Rightarrow>
          let piece = board_pieces g ! i;
              p1 = (if i \<in> movedToOverlay g then restorePieceLayer piece else piece);
              p2 = setTint (b_tintTopLeft prev) (setAlpha (b_alpha prev)
                     (setScrollFactor (b_scrollFactorX prev) (b_scrollFactorY prev)
                       (setDepth (b_depth prev) (setVisible (b_visible prev) p1))));
              p3 = (if b_interactive prev then enablePieceInteraction p2 else disableInteractive p2)
          in g\<lparr>board_pieces := (board_pieces g)[i := p3]\<rparr>)"

definition release_step :: "nat \<Rightarrow> game \<Rightarrow> game" where
  "release_step i g =
     (if i \<ge> length (board_pieces g) then g
      else
        let p1 = restorePieceLayer (board_pieces g ! i);
            p2 = setTint vividTint (setAlpha 1 (setVisible True p1))
        in g\<lparr>board_pieces := (board_pieces g)[i := enablePieceInteraction p2]\<rparr>)"

definition focus_close :: "game \<Rightarrow> game" where
  "focus_close g =
     (case openPocketIdx g of
        None \<Rightarrow> g
      | Some idx \<Rightarrow>
          let g1 = fold close_step [0..<length (board_pieces g)] g;
              g2 = fold release_step (releasedToWorld g1) g1
          in g2\<lparr>prevPieceState := Map.empty, hiddenPieces := [], pocketPieces := [],
                movedToOverlay := {}, baselineCaptured := False, releasedToWorld := [],
                openPocketIdx := None\<rparr>)"

text \<open>\<open>open\<close>; the guide sprites of \<open>renderReveal16\<close> are separate images and are left out.\<close>

definition focus_open :: "nat \<Rightarrow> game \<Rightarrow> game option" where
  "focus_open pocketIdx g =
     applyVisibilityAndInteraction True
       ((focus_close g)\<lparr>openPocketIdx := Some pocketIdx, baselineCaptured := False\<rparr>)"


definition excludePieceFromRestore :: "nat \<Rightarrow> game \<Rightarrow> game" where
  "excludePieceFromRestore pid g = g\<lparr>prevPieceState := (prevPieceState g)(pid := None)\<rparr>"

definition markPieceReleasedToWorld :: "nat \<Rightarrow> game \<Rightarrow> game" where
  "markPieceReleasedToWorld pid g =
     excludePieceFromRestore pid
       (g\<lparr>releasedToWorld := (if pid \<in> set (releasedToWorld g) then releasedToWorld g
                                else releasedToWorld g @ [pid])\<rparr>)"


section \<open>Auxiliary notions and example states\<close>

text \<open>
  Closed forms used in the proofs (the state after a successful transfer or placement,
  what one pass of the focus mode does to one piece), and the concrete states on which the
  theorems are exercised: a 2 x 2 board of 50 x 40 pieces whose container is at (75, 180).
\<close>

definition transferred :: "nat \<Rightarrow> nat \<Rightarrow> nat \<Rightarrow> nat \<Rightarrow> game \<Rightarrow> game" where
  "transferred f t k slot g =
     g\<lparr>pockets := (pockets g)
          [f := (pockets g ! f)\<lparr>pieces := splice_out k (pieces (pockets g ! f))\<rparr>,
           t := (pockets g ! t)\<lparr>pieces := pieces (pockets g ! t)
                   @ [(pieces (pockets g ! f) ! k)\<lparr>slotIndex := Some slot\<rparr>]\<rparr>]\<rparr>"

definition focus_view :: "nat list \<Rightarrow> nat list \<Rightarrow> bool \<Rightarrow> bool \<Rightarrow> bool \<Rightarrow> nat \<Rightarrow> piece \<Rightarrow> piece" where
  "focus_view pocketIds templateIds hasTemplate moved released i p =
     (if i \<in> set pocketIds then showInPocket p
      else
        let p1 = (if moved then restorePieceLayer p else p) in
        if released then disableInteractive (setVisible False p1)
        else if isSolved p1 then
          setAlpha 1 (setTint focusSolvedTint (setDepth 0
            (disableInteractive (setVisible (hasTemplate \<and> i \<in> set templateIds) p1))))
        else disableInteractive (setVisible False p1))"

definition close_view :: "baseline option \<Rightarrow> bool \<Rightarrow> piece \<Rightarrow> piece" where
  "close_view prev moved p =
     (case prev of
        None \<Rightarrow> p
      | Some b \<Rightarrow>
          let p1 = (if moved then restorePieceLayer p else p);
              p2 = setTint (b_tintTopLeft b) (setAlpha (b_alpha b)
                     (setScrollFactor (b_scrollFactorX b) (b_scrollFactorY b)
                       (setDepth (b_depth b) (setVisible (b_visible b) p1))))
          in if b_interactive b then enablePieceInteraction p2 else disableInteractive p2)"

definition applyVisibility_fold :: "bool \<Rightarrow> nat \<Rightarrow> game \<Rightarrow> game" where
  "applyVisibility_fold cb idx g =
     fold (applyVisibility_step cb (map pieceId (pieces (pockets g ! idx)))
             (case template (pockets g ! idx) of None \<Rightarrow> [] | Some t \<Rightarrow> layout_ids t)
             (template (pockets g ! idx) \<noteq> None))
       [0..<length (board_pieces g)] (g\<lparr>hiddenPieces := [], pocketPieces := []\<rparr>)"


definition demo_pieces :: "piece list" where
  "demo_pieces =
     [loose_piece,
      loose_piece\<lparr>pos_x := 400, pos_y := 90, angle := 90, correctX := 150\<rparr>,
      loose_piece\<lparr>pos_x := 30, pos_y := 500, correctY := 240\<rparr>,
      loose_piece\<lparr>pos_x := 150, pos_y := 240, correctX := 150, correctY := 240,
        isSolved := True, input_enabled := False, depth := 0, tintTopLeft := 0xddffdd,
        layer := SolvedLayer\<rparr>]"

definition empty_pocket :: "nat \<Rightarrow> pocket_state" where
  "empty_pocket n = \<lparr>pocket_id = n, pieces = [], template = None\<rparr>"

definition demo_game :: game where
  "demo_game =
     \<lparr>board_pieces = demo_pieces, containerX = 75, containerY = 180,
      scaleWidth = 800, scaleHeight = 600,
      pockets = [empty_pocket 0, empty_pocket 1, empty_pocket 2],
      activePocket = 0, attached = True, openPocketIdx = None, baselineCaptured = False,
      hiddenPieces = [], pocketPieces = [], movedToOverlay = {}, releasedToWorld = [],
      prevPieceState = Map.empty\<rparr>"

definition stashed_entry :: pocket_piece_state where
  "stashed_entry =
     \<lparr>pieceId = 1, ps_angle = 90, slotIndex = Some 0,
      lastWorldPos = Some \<lparr>wp_x = 400, wp_y = 90, wp_angle = 90\<rparr>\<rparr>"

definition stashed_game :: game where
  "stashed_game =
     demo_game\<lparr>board_pieces := demo_pieces[1 := (demo_pieces ! 1)\<lparr>visible := False, input_enabled := False\<rparr>],
       pockets := [(empty_pocket 0)\<lparr>pieces := [stashed_entry]\<rparr>, empty_pocket 1, empty_pocket 2]\<rparr>"

definition demo_template :: pocket_template where
  "demo_template =
     \<lparr>pieceLayout = [(1, \<lparr>gridRow = 0, gridCol = 1\<rparr>), (3, \<lparr>gridRow = 1, gridCol = 1\<rparr>)],
      capturedAt = 0, imageKey = ''level_1'',
      crop = \<lparr>crop_x = 125, crop_y = 180, crop_w = 50, crop_h = 80\<rparr>,
      solvedIds = [3]\<rparr>"

definition template_game :: game where
  "template_game =
     stashed_game\<lparr>pockets := [\<lparr>pocket_id = 0, pieces = [stashed_entry], template = Some demo_template\<rparr>,
                              empty_pocket 1, empty_pocket 2]\<rparr>"


text \<open>The hint tool has solved the stashed piece 1 while it was listed in pocket 0.\<close>

definition hinted_game :: game where
  "hinted_game =
     stashed_game\<lparr>board_pieces := (board_pieces stashed_game)
        [1 := setPieceSolved ((board_pieces stashed_game ! 1)\<lparr>pos_x := 150, pos_y := 200, angle := 0\<rparr>)]\<rparr>"

definition demo_ops :: "pocket_op list" where
  "demo_ops =
     [Stash 1 (Some 0), Stash 0 None, Transfer 0 1 1, RetrievePiece 1 1 (0, 0),
      RetrieveAll 0 (\<lambda>k. (0, 0))]"

text \<open>
  The ids held by any pocket; pockets holding no id in common; and a run in which every
  stash call is for a piece that no pocket holds at that moment.
\<close>

definition stashed_ids :: "game \<Rightarrow> nat list" where
  "stashed_ids g = concat (map (\<lambda>pocket. map pieceId (pieces pocket)) (pockets g))"

definition pockets_disjoint :: "game \<Rightarrow> bool" where
  "pockets_disjoint g \<longleftrightarrow>
     list_all (\<lambda>i. list_all (\<lambda>j. i = j \<or>
         list_all (\<lambda>e. list_all (\<lambda>e'. pieceId e \<noteq> pieceId e') (pieces (pockets g ! j)))
           (pieces (pockets g ! i)))
       [0..<length (pockets g)]) [0..<length (pockets g)]"

fun stashes_fresh :: "pocket_op list \<Rightarrow> game \<Rightarrow> bool" where
  "stashes_fresh [] g = True"
| "stashes_fresh (op # ops) g =
     ((case op of Stash pieceRef targetPocket \<Rightarrow> pieceRef \<notin> set (stashed_ids g) | _ \<Rightarrow> True)
      \<and> (case apply_op op g of None \<Rightarrow> True | Some g' \<Rightarrow> stashes_fresh ops g'))"

definition ids_at :: "pocket_state list \<Rightarrow> nat \<Rightarrow> nat set" where
  "ids_at ps i = pieceId ` set (pieces (ps ! i))"

section \<open>Properties of the snap rule\<close>

lemma distance_between_less:
  assumes "0 < r"
  shows "distance_between x1 y1 x2 y2 < r
         \<longleftrightarrow> (x1 - x2) * (x1 - x2) + (y1 - y2) * (y1 - y2) < r * r"
proof -
  have "sqrt ((x1 - x2) * (x1 - x2) + (y1 - y2) * (y1 - y2)) < r
        \<longleftrightarrow> sqrt ((x1 - x2) * (x1 - x2) + (y1 - y2) * (y1 - y2)) < sqrt (r * r)"
    using assms by simp
  then show ?thesis
    unfolding distance_between_def by (simp only: real_sqrt_less_iff)
qed

text \<open>
  Claim C4. With the default options, \<open>SnapSystem.trySnap\<close> returns true exactly when the
  piece is not solved, its Euclidean distance to its correct position is strictly below 30
  and its angle is exactly 0. On success the piece sits exactly at its correct position
  with angle 0, is solved, has input disabled, depth 0 and the solved tint, every other
  field being as before; on failure the piece is returned unchanged.
\<close>

theorem trySnap_default_spec:
  "(fst (trySnap default_snap_system p) \<longleftrightarrow>
      (\<not> isSolved p
       \<and> distance_between (pos_x p) (pos_y p) (correctX p) (correctY p) < 30
       \<and> angle p = 0))
   \<and> (fst (trySnap default_snap_system p) \<longrightarrow>
        snd (trySnap default_snap_system p) =
          p\<lparr>isSolved := True, pos_x := correctX p, pos_y := correctY p, angle := 0,
            input_enabled := False, depth := 0, tintTopLeft := 0xddffdd\<rparr>)
   \<and> (\<not> fst (trySnap default_snap_system p) \<longrightarrow> snd (trySnap default_snap_system p) = p)"
  by (auto simp: trySnap_def canSnap_def applySolvedState_def default_snap_system_def
        setTint_def setDepth_def disableInteractive_def Let_def)

theorem trySnap_default_spec_witness:
  "fst (trySnap default_snap_system loose_piece)
   \<and> snd (trySnap default_snap_system loose_piece) =
       loose_piece\<lparr>isSolved := True, pos_x := 100, pos_y := 200, angle := 0,
         input_enabled := False, depth := 0, tintTopLeft := 0xddffdd\<rparr>
   \<and> \<not> fst (trySnap default_snap_system (loose_piece\<lparr>angle := 90\<rparr>))
   \<and> snd (trySnap default_snap_system (loose_piece\<lparr>angle := 90\<rparr>)) = loose_piece\<lparr>angle := 90\<rparr>"
proof -
  have near: "distance_between (pos_x loose_piece) (pos_y loose_piece)
                (correctX loose_piece) (correctY loose_piece) < 30"
    by (simp add: distance_between_less loose_piece_def)
  have ok: "fst (trySnap default_snap_system loose_piece)"
    using trySnap_default_spec [of loose_piece] near by (simp add: loose_piece_def)
  have turned: "\<not> fst (trySnap default_snap_system (loose_piece\<lparr>angle := 90\<rparr>))"
    using trySnap_default_spec [of "loose_piece\<lparr>angle := 90\<rparr>"] by simp
  show ?thesis
    using ok turned trySnap_default_spec [of loose_piece]
      trySnap_default_spec [of "loose_piece\<lparr>angle := 90\<rparr>"]
    by (simp add: loose_piece_def)
qed

section \<open>Properties of the edge shape plan\<close>

lemma nested_fold_product:
  "fold (\<lambda>c. fold (\<lambda>r. f c r) rs) cs st = fold (\<lambda>(c, r). f c r) (List.product cs rs) st"
  by (induction cs arbitrary: st) (simp_all add: fold_map comp_def)

lemma set_cell_length: "length (set_cell c r v M) = length M"
  by (simp add: set_cell_def)

lemma set_cell_row_length: "length (set_cell c r v M ! c') = length (M ! c')"
proof (cases "c < length M")
  case True
  then show ?thesis by (cases "c' = c") (simp_all add: set_cell_def)
next
  case False
  then show ?thesis by (simp add: set_cell_def list_update_beyond not_less)
qed

lemma set_cell_nth:
  "set_cell c r v M ! c' ! r' =
     (if c' = c \<and> r' = r \<and> c < length M \<and> r < length (M ! c) then v else M ! c' ! r')"
proof (cases "c < length M")
  case True
  show ?thesis
  proof (cases "r < length (M ! c)")
    case True
    with \<open>c < length M\<close> show ?thesis by (simp add: set_cell_def nth_list_update)
  next
    case False
    then have "(M ! c)[r := v] = M ! c" by (simp add: list_update_beyond not_less)
    with False show ?thesis by (simp add: set_cell_def)
  qed
next
  case False
  then have "M[c := (M ! c)[r := v]] = M" by (simp add: list_update_beyond not_less)
  with False show ?thesis by (simp add: set_cell_def)
qed

lemma zero_matrix_nth:
  "c < n \<Longrightarrow> r < m \<Longrightarrow> replicate n (replicate m (0::int)) ! c ! r = 0"
  by simp

lemma fold_fill_written:
  assumes "(c', r') \<in> set cells \<or> M ! c' ! r' \<in> {1, - 1}" "c' < length M" "r' < length (M ! c')"
  shows "fst (fold (\<lambda>(c, r). fill_step rnd c r) cells (M, k)) ! c' ! r' \<in> {1, - 1}"
  using assms
proof (induction cells arbitrary: M k)
  case Nil
  then show ?case by simp
next
  case (Cons a cells)
  obtain c r where a: "a = (c, r)" by (cases a)
  let ?M = "set_cell c r (random_shape (rnd k)) M"
  have "(c', r') \<in> set cells \<or> ?M ! c' ! r' \<in> {1, - 1}"
    using Cons.prems by (auto simp: a set_cell_nth random_shape_def)
  moreover have "c' < length ?M" "r' < length (?M ! c')"
    using Cons.prems by (simp_all add: set_cell_length set_cell_row_length)
  ultimately have "fst (fold (\<lambda>(c, r). fill_step rnd c r) cells (?M, Suc k)) ! c' ! r' \<in> {1, - 1}"
    by (rule Cons.IH)
  then show ?case by (simp add: a)
qed

lemma fold_fill_untouched:
  assumes "(c', r') \<notin> set cells"
  shows "fst (fold (\<lambda>(c, r). fill_step rnd c r) cells (M, k)) ! c' ! r' = M ! c' ! r'"
  using assms
proof (induction cells arbitrary: M k)
  case Nil
  then show ?case by simp
next
  case (Cons a cells)
  obtain c r where a: "a = (c, r)" by (cases a)
  have "fst (fold (\<lambda>(c, r). fill_step rnd c r) cells (set_cell c r (random_shape (rnd k)) M, Suc k)) ! c' ! r'
        = set_cell c r (random_shape (rnd k)) M ! c' ! r'"
    using Cons.prems by (intro Cons.IH) simp
  then show ?case using Cons.prems by (auto simp: a set_cell_nth)
qed

lemma horizontal_internal:
  assumes "c < cols" "1 \<le> r" "r < rows"
  shows "fst (edge_plan rnd cols rows) ! c ! r \<in> {1, - 1}"
  unfolding edge_plan_def Let_def fst_conv fill_horizontal_def nested_fold_product
  by (rule fold_fill_written) (use assms in auto)

lemma horizontal_border:
  assumes "c < cols" "r = 0 \<or> r = rows"
  shows "fst (edge_plan rnd cols rows) ! c ! r = 0"
proof -
  have "(c, r) \<notin> set (List.product [0..<cols] [1..<rows])" using assms by auto
  then have "fst (fold (\<lambda>(c, r). fill_step rnd c r) (List.product [0..<cols] [1..<rows])
                (replicate cols (replicate (rows + 1) 0), 0)) ! c ! r
             = replicate cols (replicate (rows + 1) 0) ! c ! r"
    by (rule fold_fill_untouched)
  also have "\<dots> = 0"
    using assms by (intro zero_matrix_nth) auto
  finally show ?thesis
    unfolding edge_plan_def Let_def fst_conv fill_horizontal_def nested_fold_product .
qed

lemma vertical_internal:
  assumes "1 \<le> c" "c < cols" "r < rows"
  shows "snd (edge_plan rnd cols rows) ! c ! r \<in> {1, - 1}"
  unfolding edge_plan_def Let_def snd_conv fill_vertical_def nested_fold_product
  by (rule fold_fill_written) (use assms in auto)

lemma vertical_border:
  assumes "c = 0 \<or> c = cols" "r < rows"
  shows "snd (edge_plan rnd cols rows) ! c ! r = 0"
proof -
  have "(c, r) \<notin> set (List.product [1..<cols] [0..<rows])" using assms by auto
  then have "fst (fold (\<lambda>(c, r). fill_step rnd c r) (List.product [1..<cols] [0..<rows])
                (replicate (cols + 1) (replicate rows 0), k)) ! c ! r
             = replicate (cols + 1) (replicate rows 0) ! c ! r" for k
    by (rule fold_fill_untouched)
  also have "replicate (cols + 1) (replicate rows (0::int)) ! c ! r = 0"
    using assms by (intro zero_matrix_nth) auto
  finally show ?thesis
    unfolding edge_plan_def Let_def snd_conv fill_vertical_def nested_fold_product .
qed

text \<open>
  Claim C3. For every grid with at least one column and one row, the shapes derived for
  the two cells on either side of an internal boundary are nonzero, of equal magnitude
  and of opposite sign (bottom of the upper cell against top of the lower cell, right of
  the left cell against left of the right cell), and every side on the border of the grid
  has shape 0.
\<close>

theorem splitImage_edge_shapes:
  assumes "1 \<le> cols" "1 \<le> rows"
  shows "(c < cols \<and> r + 1 < rows \<longrightarrow>
            shape_bottom (piece_shapes (edge_plan rnd cols rows) c r) \<noteq> 0
          \<and> \<bar>shape_bottom (piece_shapes (edge_plan rnd cols rows) c r)\<bar>
              = \<bar>shape_top (piece_shapes (edge_plan rnd cols rows) c (r + 1))\<bar>
          \<and> shape_bottom (piece_shapes (edge_plan rnd cols rows) c r)
              = - shape_top (piece_shapes (edge_plan rnd cols rows) c (r + 1)))
       \<and> (c + 1 < cols \<and> r < rows \<longrightarrow>
            shape_right (piece_shapes (edge_plan rnd cols rows) c r) \<noteq> 0
          \<and> \<bar>shape_right (piece_shapes (edge_plan rnd cols rows) c r)\<bar>
              = \<bar>shape_left (piece_shapes (edge_plan rnd cols rows) (c + 1) r)\<bar>
          \<and> shape_right (piece_shapes (edge_plan rnd cols rows) c r)
              = - shape_left (piece_shapes (edge_plan rnd cols rows) (c + 1) r))
       \<and> (c < cols \<longrightarrow> shape_top (piece_shapes (edge_plan rnd cols rows) c 0) = 0
                    \<and> shape_bottom (piece_shapes (edge_plan rnd cols rows) c (rows - 1)) = 0)
       \<and> (r < rows \<longrightarrow> shape_left (piece_shapes (edge_plan rnd cols rows) 0 r) = 0
                    \<and> shape_right (piece_shapes (edge_plan rnd cols rows) (cols - 1) r) = 0)"
proof (intro conjI impI)
  assume h: "c < cols \<and> r + 1 < rows"
  then have "fst (edge_plan rnd cols rows) ! c ! (r + 1) \<in> {1, - 1}"
    by (intro horizontal_internal) auto
  then show "shape_bottom (piece_shapes (edge_plan rnd cols rows) c r) \<noteq> 0"
    by (auto simp: piece_shapes_def Let_def)
next
  assume h: "c + 1 < cols \<and> r < rows"
  then have "snd (edge_plan rnd cols rows) ! (c + 1) ! r \<in> {1, - 1}"
    by (intro vertical_internal) auto
  then show "shape_right (piece_shapes (edge_plan rnd cols rows) c r) \<noteq> 0"
    by (auto simp: piece_shapes_def Let_def)
next
  assume "c < cols"
  then show "shape_top (piece_shapes (edge_plan rnd cols rows) c 0) = 0"
    using horizontal_border [where c = c and cols = cols and r = 0 and rows = rows and rnd = rnd]
    by (auto simp: piece_shapes_def Let_def)
next
  assume "c < cols"
  then show "shape_bottom (piece_shapes (edge_plan rnd cols rows) c (rows - 1)) = 0"
    using horizontal_border [where c = c and cols = cols and r = rows and rows = rows and rnd = rnd] assms
    by (auto simp: piece_shapes_def Let_def)
next
  assume "r < rows"
  then show "shape_left (piece_shapes (edge_plan rnd cols rows) 0 r) = 0"
    using vertical_border [where c = 0 and cols = cols and r = r and rows = rows and rnd = rnd]
    by (auto simp: piece_shapes_def Let_def)
next
  assume "r < rows"
  then show "shape_right (piece_shapes (edge_plan rnd cols rows) (cols - 1) r) = 0"
    using vertical_border [where c = cols and cols = cols and r = r and rows = rows and rnd = rnd] assms
    by (auto simp: piece_shapes_def Let_def)
qed (simp_all add: piece_shapes_def Let_def)


theorem splitImage_edge_shapes_witness:
  "(1::nat) \<le> 2 \<and> (0::nat) + 1 < 2
   \<and> shape_bottom (piece_shapes (edge_plan even 2 2) 0 0) \<noteq> 0
   \<and> shape_bottom (piece_shapes (edge_plan even 2 2) 0 0)
       = - shape_top (piece_shapes (edge_plan even 2 2) 0 1)
   \<and> shape_right (piece_shapes (edge_plan even 2 2) 0 1) \<noteq> 0
   \<and> shape_right (piece_shapes (edge_plan even 2 2) 0 1)
       = - shape_left (piece_shapes (edge_plan even 2 2) 1 1)
   \<and> shape_top (piece_shapes (edge_plan even 2 2) 1 0) = 0
   \<and> shape_right (piece_shapes (edge_plan even 2 2) 1 0) = 0"
  using splitImage_edge_shapes [where cols = 2 and rows = 2 and c = 0 and r = 0 and rnd = even]
    splitImage_edge_shapes [where cols = 2 and rows = 2 and c = 0 and r = 1 and rnd = even]
    splitImage_edge_shapes [where cols = 2 and rows = 2 and c = 1 and r = 0 and rnd = even]
  by simp

section \<open>Properties of the pocket manager and the focus mode\<close>

subsection \<open>Lists: search, splicing, free slots\<close>

lemma findIndex_Some:
  "findIndex P xs = Some k \<Longrightarrow> k < length xs \<and> P (xs ! k) \<and> (\<forall>j<k. \<not> P (xs ! j))"
proof (induction xs arbitrary: k)
  case Nil
  then show ?case by simp
next
  case (Cons x xs)
  show ?case
  proof (cases "P x")
    case True
    with Cons.prems show ?thesis by simp
  next
    case False
    with Cons.prems obtain k' where k': "findIndex P xs = Some k'" "k = Suc k'"
      by auto
    from Cons.IH [OF k'(1)] False k'(2) show ?thesis
      by (auto simp: nth_Cons split: nat.splits)
  qed
qed


lemma splice_in_out: "k < length xs \<Longrightarrow> splice_in k (xs ! k) (splice_out k xs) = xs"
  by (simp add: splice_in_def splice_out_def id_take_nth_drop [symmetric] min_def)

lemma set_splice_out_subset: "set (splice_out k xs) \<subseteq> set xs"
  unfolding splice_out_def by (auto dest: in_set_takeD in_set_dropD)

lemma map_splice_out: "map f (splice_out k xs) = splice_out k (map f xs)"
  by (simp add: splice_out_def take_map drop_map)

lemma distinct_splice_out:
  assumes "distinct xs"
  shows "distinct (splice_out k xs)"
proof -
  have "distinct (take k xs @ drop k xs)" using assms by simp
  then have "set (take k xs) \<inter> set (drop k xs) = {}"
    unfolding distinct_append by blast
  moreover have "set (drop (Suc k) xs) \<subseteq> set (drop k xs)"
    by (rule set_drop_subset_set_drop) simp
  ultimately have "set (take k xs) \<inter> set (drop (Suc k) xs) = {}" by blast
  then show ?thesis using assms by (simp add: splice_out_def)
qed

lemma splice_out_removes:
  assumes "distinct xs" "k < length xs"
  shows "xs ! k \<notin> set (splice_out k xs)"
proof -
  have "xs = take k xs @ xs ! k # drop (Suc k) xs"
    using assms(2) by (rule id_take_nth_drop)
  then have "distinct (take k xs @ xs ! k # drop (Suc k) xs)"
    using assms(1) by simp
  then show ?thesis by (auto simp: splice_out_def)
qed


lemma set_map_filter: "set (List.map_filter f xs) = {y. \<exists>x\<in>set xs. f x = Some y}"
  by (induction xs) (auto simp: List.map_filter_simps split: option.splits)

lemma findNextFreeSlotIndex_Some:
  assumes "findNextFreeSlotIndex pocket = Some s"
  shows "s < 16 \<and> Some s \<notin> slotIndex ` set (pieces pocket)
         \<and> (\<forall>j<s. Some j \<in> slotIndex ` set (pieces pocket))"
proof -
  let ?used = "List.map_filter slotIndex (pieces pocket)"
  from assms have f: "List.find (\<lambda>i. i \<notin> set ?used) [0..<16] = Some s"
    by (simp add: findNextFreeSlotIndex_def)
  then obtain i where i: "i < length [0..<16]" "[0..<16] ! i \<notin> set ?used" "s = [0..<16] ! i"
    "\<forall>j<i. \<not> ([0..<16] ! j \<notin> set ?used)"
    unfolding find_Some_iff by blast
  have si: "s = i" using i(1,3) by (simp del: upt_Suc)
  have "s < 16" using i(1) si by simp
  moreover have "Some s \<notin> slotIndex ` set (pieces pocket)"
    using i(2) i(1) si by (force simp del: upt_Suc simp: set_map_filter)
  moreover have "Some j \<in> slotIndex ` set (pieces pocket)" if "j < s" for j
  proof -
    have "j < i" using that si by simp
    then have "[0..<16] ! j \<in> set ?used" using i(4) by blast
    moreover have "[0..<16] ! j = j" using \<open>j < i\<close> i(1) by (simp del: upt_Suc)
    ultimately show ?thesis by (force simp: set_map_filter)
  qed
  ultimately show ?thesis by blast
qed

lemma findNextFreeSlotIndex_None:
  assumes "findNextFreeSlotIndex pocket = None"
  shows "16 \<le> length (pieces pocket)"
proof -
  let ?used = "List.map_filter slotIndex (pieces pocket)"
  from assms have "List.find (\<lambda>i. i \<notin> set ?used) [0..<16] = None"
    by (simp add: findNextFreeSlotIndex_def)
  then have "\<forall>i\<in>set [0..<16]. i \<in> set ?used"
    unfolding find_None_iff by blast
  then have "{0..<16} \<subseteq> set ?used" by (auto simp del: upt_Suc)
  then have "card {0..<16::nat} \<le> card (set ?used)"
    by (intro card_mono) auto
  also have "\<dots> \<le> length ?used" by (rule card_length)
  also have "\<dots> \<le> length (pieces pocket)"
    by (simp add: List.map_filter_def)
  finally show ?thesis by simp
qed

lemma findNextFreeSlotIndex_exists:
  "length (pieces pocket) < 16 \<Longrightarrow> \<exists>s. findNextFreeSlotIndex pocket = Some s"
  using findNextFreeSlotIndex_None [of pocket] by (cases "findNextFreeSlotIndex pocket") auto

subsection \<open>transferPiece\<close>

lemma list_ex_pieceId: "list_ex (\<lambda>p. pieceId p = pid) xs \<longleftrightarrow> pid \<in> pieceId ` set xs"
  by (auto simp: list_ex_iff)

lemma transferPiece_cases:
  obtains (fail) "transferPiece f t pid g = (False, g)"
  | (ok) k slot where "f \<noteq> t" "f < length (pockets g)" "t < length (pockets g)"
      "length (pieces (pockets g ! t)) < 16" "pid \<notin> pieceId ` set (pieces (pockets g ! t))"
      "findIndex (\<lambda>p. pieceId p = pid) (pieces (pockets g ! f)) = Some k"
      "findNextFreeSlotIndex (pockets g ! t) = Some slot"
      "transferPiece f t pid g = (True, transferred f t k slot g)"
proof (cases "f \<noteq> t \<and> f < length (pockets g) \<and> t < length (pockets g)
              \<and> length (pieces (pockets g ! t)) < 16
              \<and> pid \<notin> pieceId ` set (pieces (pockets g ! t))")
  case False
  then have "transferPiece f t pid g = (False, g)"
    by (auto simp: transferPiece_def Let_def maxPiecesPerPocket_def list_ex_pieceId)
  then show ?thesis by (rule fail)
next
  case pre: True
  show ?thesis
  proof (cases "findIndex (\<lambda>p. pieceId p = pid) (pieces (pockets g ! f))")
    case None
    with pre have "transferPiece f t pid g = (False, g)"
      by (simp add: transferPiece_def Let_def maxPiecesPerPocket_def list_ex_pieceId)
    then show ?thesis by (rule fail)
  next
    case (Some k)
    from pre obtain slot where slot: "findNextFreeSlotIndex (pockets g ! t) = Some slot"
      using findNextFreeSlotIndex_exists by blast
    have "transferPiece f t pid g = (True, transferred f t k slot g)"
      using pre Some slot
      by (simp add: transferPiece_def Let_def maxPiecesPerPocket_def list_ex_pieceId
            transferred_def)
    with pre Some slot show ?thesis by (intro ok [of k slot]) simp_all
  qed
qed

text \<open>
  Claim C2. \<open>transferPiece\<close> is atomic. Whenever it returns false the whole state, and so
  both pockets' piece lists, is as before the call; it returns false in particular when \<open>to\<close>
  is full, when \<open>to\<close> already holds the piece id, and when \<open>from\<close> does not hold it. Whenever
  it returns true, one entry with that piece id has left \<open>from\<close> and is appended to \<open>to\<close>
  with a slot index below 16 that no entry of \<open>to\<close> used, every other entry of both pockets
  and the rest of the state are unchanged, and the id is no longer in \<open>from\<close> (the ids of a
  pocket being distinct).
\<close>

theorem transferPiece_atomic:
  "(\<not> fst (transferPiece f t pid g) \<longrightarrow> snd (transferPiece f t pid g) = g)
   \<and> ((t < length (pockets g)
        \<and> (16 \<le> length (pieces (pockets g ! t)) \<or> pid \<in> pieceId ` set (pieces (pockets g ! t))))
       \<or> (f < length (pockets g) \<and> pid \<notin> pieceId ` set (pieces (pockets g ! f)))
       \<longrightarrow> \<not> fst (transferPiece f t pid g))
   \<and> (fst (transferPiece f t pid g) \<longrightarrow>
        f \<noteq> t \<and> f < length (pockets g) \<and> t < length (pockets g)
        \<and> (\<exists>k slot. k < length (pieces (pockets g ! f))
              \<and> pieceId (pieces (pockets g ! f) ! k) = pid
              \<and> slot < 16 \<and> Some slot \<notin> slotIndex ` set (pieces (pockets g ! t))
              \<and> snd (transferPiece f t pid g) =
                  g\<lparr>pockets := (pockets g)
                     [f := (pockets g ! f)\<lparr>pieces := splice_out k (pieces (pockets g ! f))\<rparr>,
                      t := (pockets g ! t)\<lparr>pieces := pieces (pockets g ! t)
                             @ [(pieces (pockets g ! f) ! k)\<lparr>slotIndex := Some slot\<rparr>]\<rparr>]\<rparr>
              \<and> (distinct (map pieceId (pieces (pockets g ! f)))
                   \<longrightarrow> pid \<notin> pieceId ` set (splice_out k (pieces (pockets g ! f))))))"
proof (cases rule: transferPiece_cases [of f t pid g])
  case fail
  then show ?thesis by simp
next
  case (ok k slot)
  from findIndex_Some [OF ok(6)]
  have k: "k < length (pieces (pockets g ! f))" "pieceId (pieces (pockets g ! f) ! k) = pid"
    by simp_all
  from findNextFreeSlotIndex_Some [OF ok(7)]
  have s: "slot < 16" "Some slot \<notin> slotIndex ` set (pieces (pockets g ! t))" by simp_all
  have absent: "pid \<notin> pieceId ` set (splice_out k (pieces (pockets g ! f)))"
    if d: "distinct (map pieceId (pieces (pockets g ! f)))"
  proof -
    have "map pieceId (pieces (pockets g ! f)) ! k
            \<notin> set (splice_out k (map pieceId (pieces (pockets g ! f))))"
      using d k(1) by (intro splice_out_removes) simp_all
    then show ?thesis using k by (simp add: map_splice_out [symmetric])
  qed
  have "pid \<in> pieceId ` set (pieces (pockets g ! f))"
    using k by (metis imageI nth_mem)
  with ok k s absent show ?thesis
    by (auto simp: transferred_def)
qed

subsection \<open>Templates, and stashing followed by retrieval\<close>

lemma set_layout_ids: "set (layout_ids t) = fst ` set (pieceLayout t)"
  by (simp add: layout_ids_def)

lemma distinct_layout_ids: "distinct (layout_ids t)"
  by (simp add: layout_ids_def)

text \<open>
  Claim C9. With the board attached, \<open>canCaptureTemplate\<close> is true for a pocket exactly when
  the pocket has no template, or every piece id of the template's layout is a piece of the
  board that is currently solved.
\<close>

theorem canCaptureTemplate_iff:
  assumes "attached g" "pocketIdx < length (pockets g)"
  shows "canCaptureTemplate pocketIdx g \<longleftrightarrow>
           (template (pockets g ! pocketIdx) = None
            \<or> (\<exists>t. template (pockets g ! pocketIdx) = Some t
                 \<and> (\<forall>i \<in> fst ` set (pieceLayout t).
                       i < length (board_pieces g) \<and> isSolved (board_pieces g ! i))))"
proof (cases "template (pockets g ! pocketIdx)")
  case None
  with assms show ?thesis by (simp add: canCaptureTemplate_def template_at_def)
next
  case (Some t)
  have "canCaptureTemplate pocketIdx g \<longleftrightarrow>
          (\<forall>i \<in> set (layout_ids t). i < length (board_pieces g) \<and> isSolved (board_pieces g ! i))"
    using assms Some
    by (auto simp: canCaptureTemplate_def isTemplateComplete_def template_at_def Let_def
          list_all_iff)
  then show ?thesis using Some by (simp add: set_layout_ids)
qed

lemma stashPiece_True:
  assumes "stashPiece pieceRef targetPocket g = Some (True, g1)"
  defines "p \<equiv> (case targetPocket of Some t \<Rightarrow> t | None \<Rightarrow> activePocket g)"
  shows "attached g \<and> p < length (pockets g) \<and> length (pieces (pockets g ! p)) < 16
         \<and> pieceRef < length (board_pieces g)
         \<and> pieceRef \<notin> pieceId ` set (pieces (pockets g ! p))
         \<and> (\<exists>slot. findNextFreeSlotIndex (pockets g ! p) = Some slot
              \<and> g1 = g\<lparr>board_pieces := (board_pieces g)[pieceRef :=
                           setAlpha 1 (setScale 1 (setVisible False
                             (disableInteractive (board_pieces g ! pieceRef))))],
                        pockets := (pockets g)[p := (pockets g ! p)\<lparr>pieces :=
                           pieces (pockets g ! p) @
                             [\<lparr>pieceId = pieceRef, ps_angle = angle (board_pieces g ! pieceRef),
                               slotIndex = Some slot,
                               lastWorldPos = Some \<lparr>wp_x = pos_x (board_pieces g ! pieceRef),
                                                    wp_y = pos_y (board_pieces g ! pieceRef),
                                                    wp_angle = angle (board_pieces g ! pieceRef)\<rparr>\<rparr>]\<rparr>]\<rparr>)"
  using assms(1) unfolding p_def stashPiece_def Let_def maxPiecesPerPocket_def list_ex_pieceId
  by (auto split: if_splits option.splits)

lemma findIndex_append_new:
  assumes "\<forall>x\<in>set xs. \<not> P x" "P y"
  shows "findIndex P (xs @ [y]) = Some (length xs)"
  using assms by (induction xs) auto

lemma splice_out_last: "splice_out (length xs) (xs @ [y]) = xs"
  by (simp add: splice_out_def)

text \<open>
  Claim C7. When \<open>stashPiece(piece, p)\<close> succeeds and \<open>retrievePiece(p, id)\<close> is called next
  for that piece, the call returns and the piece has its position and angle of before the
  stash, is not solved, is visible with the board's interaction attached and enabled, and
  the pocket holds no entry for the id (its list is the one of before the stash).
\<close>

theorem stash_retrieve_roundtrip:
  assumes "stashPiece pieceRef (Some p) g = Some (True, g1)"
  shows "\<exists>g2. retrievePiece p pieceRef jitter g1 = Some g2
           \<and> pos_x (board_pieces g2 ! pieceRef) = pos_x (board_pieces g ! pieceRef)
           \<and> pos_y (board_pieces g2 ! pieceRef) = pos_y (board_pieces g ! pieceRef)
           \<and> angle (board_pieces g2 ! pieceRef) = angle (board_pieces g ! pieceRef)
           \<and> \<not> isSolved (board_pieces g2 ! pieceRef)
           \<and> visible (board_pieces g2 ! pieceRef)
           \<and> input_enabled (board_pieces g2 ! pieceRef)
           \<and> handle (board_pieces g2 ! pieceRef) = Some BoardInteraction
           \<and> pieceRef \<notin> pieceId ` set (pieces (pockets g2 ! p))
           \<and> pieces (pockets g2 ! p) = pieces (pockets g ! p)"
proof -
  from stashPiece_True [OF assms]
  obtain slot where pre: "attached g" "p < length (pockets g)"
      "pieceRef < length (board_pieces g)"
      "pieceRef \<notin> pieceId ` set (pieces (pockets g ! p))"
    and g1: "g1 = g\<lparr>board_pieces := (board_pieces g)[pieceRef :=
                           setAlpha 1 (setScale 1 (setVisible False
                             (disableInteractive (board_pieces g ! pieceRef))))],
                        pockets := (pockets g)[p := (pockets g ! p)\<lparr>pieces :=
                           pieces (pockets g ! p) @
                             [\<lparr>pieceId = pieceRef, ps_angle = angle (board_pieces g ! pieceRef),
                               slotIndex = Some slot,
                               lastWorldPos = Some \<lparr>wp_x = pos_x (board_pieces g ! pieceRef),
                                                    wp_y = pos_y (board_pieces g ! pieceRef),
                                                    wp_angle = angle (board_pieces g ! pieceRef)\<rparr>\<rparr>]\<rparr>]\<rparr>"
    by auto
  let ?st = "\<lparr>pieceId = pieceRef, ps_angle = angle (board_pieces g ! pieceRef),
               slotIndex = Some slot,
               lastWorldPos = Some \<lparr>wp_x = pos_x (board_pieces g ! pieceRef),
                                    wp_y = pos_y (board_pieces g ! pieceRef),
                                    wp_angle = angle (board_pieces g ! pieceRef)\<rparr>\<rparr>"
  have fi: "findIndex (\<lambda>e. pieceId e = pieceRef) (pieces (pockets g ! p) @ [?st])
              = Some (length (pieces (pockets g ! p)))"
    using pre(4) by (intro findIndex_append_new) auto
  show ?thesis
    using pre fi unfolding g1
    by (simp add: retrievePiece_def Let_def splice_out_last returnToBoard_def
          enablePieceInteraction_def attachPieceInteraction_def detachPieceInteraction_def
          setAlpha_def setScale_def setVisible_def setInteractive_def disableInteractive_def
          setTint_def setDepth_def setScrollFactor_def)
qed

subsection \<open>autoInsertIfSolved\<close>

lemma autoInsert_step_length: "length (autoInsert_step g t e ps) = length ps"
  by (simp add: autoInsert_step_def Let_def)

lemma autoInsert_step_other:
  "pieceId e \<noteq> i \<Longrightarrow> autoInsert_step g t e ps ! i = ps ! i"
  by (simp add: autoInsert_step_def Let_def)

lemma autoInsert_step_same:
  assumes "pieceId e = i" "i < length ps" "map_of (pieceLayout t) i = Some cell"
  shows "isSolved (autoInsert_step g t e ps ! i)
         \<and> logicalWidth (autoInsert_step g t e ps ! i) = logicalWidth (ps ! i)
         \<and> logicalHeight (autoInsert_step g t e ps ! i) = logicalHeight (ps ! i)
         \<and> pos_x (autoInsert_step g t e ps ! i)
             = containerX g + of_int (gridCol cell) * logicalWidth (ps ! i) + logicalWidth (ps ! i) / 2
         \<and> pos_y (autoInsert_step g t e ps ! i)
             = containerY g + of_int (gridRow cell) * logicalHeight (ps ! i) + logicalHeight (ps ! i) / 2"
  using assms
  by (simp add: autoInsert_step_def Let_def placeAtCell_def getGridToWorld_def setVisible_def
        setPieceSolved_def setTint_def moveToSolved_def setDepth_def disableInteractive_def)

lemma fold_autoInsert_placed:
  assumes "i < length ps" "map_of (pieceLayout t) i = Some cell"
    "logicalWidth (ps ! i) = w" "logicalHeight (ps ! i) = h"
    "(\<exists>e\<in>set sts. pieceId e = i)
     \<or> (isSolved (ps ! i) \<and> pos_x (ps ! i) = containerX g + of_int (gridCol cell) * w + w / 2
         \<and> pos_y (ps ! i) = containerY g + of_int (gridRow cell) * h + h / 2)"
  shows "isSolved (fold (autoInsert_step g t) sts ps ! i)
         \<and> pos_x (fold (autoInsert_step g t) sts ps ! i)
             = containerX g + of_int (gridCol cell) * w + w / 2
         \<and> pos_y (fold (autoInsert_step g t) sts ps ! i)
             = containerY g + of_int (gridRow cell) * h + h / 2"
  using assms
proof (induction sts arbitrary: ps)
  case Nil
  then show ?case by simp
next
  case (Cons a sts)
  let ?ps = "autoInsert_step g t a ps"
  have len: "i < length ?ps" using Cons.prems(1) by (simp add: autoInsert_step_length)
  have dims: "logicalWidth (?ps ! i) = w \<and> logicalHeight (?ps ! i) = h"
    using Cons.prems autoInsert_step_same [of a i ps t cell g] autoInsert_step_other [of a i g t ps]
    by (cases "pieceId a = i") auto
  have "(\<exists>e\<in>set sts. pieceId e = i)
     \<or> (isSolved (?ps ! i) \<and> pos_x (?ps ! i) = containerX g + of_int (gridCol cell) * w + w / 2
         \<and> pos_y (?ps ! i) = containerY g + of_int (gridRow cell) * h + h / 2)"
  proof (cases "pieceId a = i")
    case True
    then show ?thesis
      using Cons.prems autoInsert_step_same [of a i ps t cell g] by simp
  next
    case False
    then show ?thesis
      using Cons.prems(5) autoInsert_step_other [of a i g t ps] by auto
  qed
  with len dims Cons.prems(2)
  have "isSolved (fold (autoInsert_step g t) sts ?ps ! i)
         \<and> pos_x (fold (autoInsert_step g t) sts ?ps ! i)
             = containerX g + of_int (gridCol cell) * w + w / 2
         \<and> pos_y (fold (autoInsert_step g t) sts ?ps ! i)
             = containerY g + of_int (gridRow cell) * h + h / 2"
    by (intro Cons.IH) auto
  then show ?case by simp
qed

lemma unsolved_count:
  "length (filter (\<lambda>i. i \<notin> set (solvedIds t)) (layout_ids t))
     = card {i \<in> fst ` set (pieceLayout t). i \<notin> set (solvedIds t)}"
proof -
  have "length (filter (\<lambda>i. i \<notin> set (solvedIds t)) (layout_ids t))
          = card (set (filter (\<lambda>i. i \<notin> set (solvedIds t)) (layout_ids t)))"
    by (rule distinct_card [symmetric]) (simp add: distinct_layout_ids)
  also have "set (filter (\<lambda>i. i \<notin> set (solvedIds t)) (layout_ids t))
               = {i \<in> fst ` set (pieceLayout t). i \<notin> set (solvedIds t)}"
    by (auto simp: set_layout_ids)
  finally show ?thesis .
qed

text \<open>
  Claim C8. For a pocket of an attached manager whose template exists and whose piece list
  holds exactly the template ids that are not in \<open>solvedIds\<close>, \<open>autoInsertIfSolved\<close> empties
  the piece list, clears the template, and leaves every one of those pieces (that is on the
  board) solved and positioned on its template cell. When there is no template, or the
  number of pieces differs from the number of unsolved template ids, nothing changes.
\<close>

theorem autoInsertIfSolved_spec:
  assumes "attached g" "pocketIdx < length (pockets g)"
  shows "(\<forall>t. template (pockets g ! pocketIdx) = Some t
            \<and> distinct (map pieceId (pieces (pockets g ! pocketIdx)))
            \<and> pieceId ` set (pieces (pockets g ! pocketIdx))
                = {i \<in> fst ` set (pieceLayout t). i \<notin> set (solvedIds t)}
          \<longrightarrow> (\<exists>g'. autoInsertIfSolved pocketIdx g = Some g'
                 \<and> pieces (pockets g' ! pocketIdx) = []
                 \<and> template (pockets g' ! pocketIdx) = None
                 \<and> (\<forall>e \<in> set (pieces (pockets g ! pocketIdx)).
                      pieceId e < length (board_pieces g) \<longrightarrow>
                        isSolved (board_pieces g' ! pieceId e)
                        \<and> (\<exists>cell. map_of (pieceLayout t) (pieceId e) = Some cell
                             \<and> pos_x (board_pieces g' ! pieceId e)
                                 = containerX g
                                   + of_int (gridCol cell) * logicalWidth (board_pieces g ! pieceId e)
                                   + logicalWidth (board_pieces g ! pieceId e) / 2
                             \<and> pos_y (board_pieces g' ! pieceId e)
                                 = containerY g
                                   + of_int (gridRow cell) * logicalHeight (board_pieces g ! pieceId e)
                                   + logicalHeight (board_pieces g ! pieceId e) / 2))))
       \<and> (template (pockets g ! pocketIdx) = None \<longrightarrow> autoInsertIfSolved pocketIdx g = Some g)
       \<and> (\<forall>t. template (pockets g ! pocketIdx) = Some t
            \<and> length (pieces (pockets g ! pocketIdx))
                \<noteq> card {i \<in> fst ` set (pieceLayout t). i \<notin> set (solvedIds t)}
          \<longrightarrow> autoInsertIfSolved pocketIdx g = Some g)"
proof (intro conjI allI impI)
  fix t
  assume h: "template (pockets g ! pocketIdx) = Some t
            \<and> distinct (map pieceId (pieces (pockets g ! pocketIdx)))
            \<and> pieceId ` set (pieces (pockets g ! pocketIdx))
                = {i \<in> fst ` set (pieceLayout t). i \<notin> set (solvedIds t)}"
  let ?sts = "pieces (pockets g ! pocketIdx)"
  let ?g' = "g\<lparr>board_pieces := fold (autoInsert_step g t) ?sts (board_pieces g),
               pockets := (pockets g)[pocketIdx := (pockets g ! pocketIdx)\<lparr>pieces := [], template := None\<rparr>]\<rparr>"
  have "length ?sts = card (pieceId ` set ?sts)"
    using h by (metis distinct_card length_map set_map)
  then have cnt: "length ?sts = length (filter (\<lambda>i. i \<notin> set (solvedIds t)) (layout_ids t))"
    using h by (simp add: unsolved_count)
  have run: "autoInsertIfSolved pocketIdx g = Some ?g'"
    using assms h cnt by (simp add: autoInsertIfSolved_def Let_def)
  have placed: "isSolved (board_pieces ?g' ! pieceId e)
                \<and> (\<exists>cell. map_of (pieceLayout t) (pieceId e) = Some cell
                     \<and> pos_x (board_pieces ?g' ! pieceId e)
                         = containerX g
                           + of_int (gridCol cell) * logicalWidth (board_pieces g ! pieceId e)
                           + logicalWidth (board_pieces g ! pieceId e) / 2
                     \<and> pos_y (board_pieces ?g' ! pieceId e)
                         = containerY g
                           + of_int (gridRow cell) * logicalHeight (board_pieces g ! pieceId e)
                           + logicalHeight (board_pieces g ! pieceId e) / 2)"
    if e: "e \<in> set ?sts" "pieceId e < length (board_pieces g)" for e
  proof -
    from e(1) h have "pieceId e \<in> fst ` set (pieceLayout t)" by blast
    then obtain cell where cell: "map_of (pieceLayout t) (pieceId e) = Some cell"
      by (metis domD dom_map_of_conv_image_fst)
    from fold_autoInsert_placed [OF e(2) cell refl refl, of ?sts g] e(1) cell
    show ?thesis by auto
  qed
  show "\<exists>g'. autoInsertIfSolved pocketIdx g = Some g'
                 \<and> pieces (pockets g' ! pocketIdx) = []
                 \<and> template (pockets g' ! pocketIdx) = None
                 \<and> (\<forall>e \<in> set (pieces (pockets g ! pocketIdx)).
                      pieceId e < length (board_pieces g) \<longrightarrow>
                        isSolved (board_pieces g' ! pieceId e)
                        \<and> (\<exists>cell. map_of (pieceLayout t) (pieceId e) = Some cell
                             \<and> pos_x (board_pieces g' ! pieceId e)
                                 = containerX g
                                   + of_int (gridCol cell) * logicalWidth (board_pieces g ! pieceId e)
                                   + logicalWidth (board_pieces g ! pieceId e) / 2
                             \<and> pos_y (board_pieces g' ! pieceId e)
                                 = containerY g
                                   + of_int (gridRow cell) * logicalHeight (board_pieces g ! pieceId e)
                                   + logicalHeight (board_pieces g ! pieceId e) / 2))"
  proof (rule exI [of _ ?g'], intro conjI ballI impI)
    show "autoInsertIfSolved pocketIdx g = Some ?g'" by (rule run)
    show "pieces (pockets ?g' ! pocketIdx) = []" using assms by simp
    show "template (pockets ?g' ! pocketIdx) = None" using assms by simp
  next
    fix e assume "e \<in> set ?sts" "pieceId e < length (board_pieces g)"
    then show "isSolved (board_pieces ?g' ! pieceId e)" using placed by blast
  next
    fix e assume "e \<in> set ?sts" "pieceId e < length (board_pieces g)"
    then show "\<exists>cell. map_of (pieceLayout t) (pieceId e) = Some cell
                     \<and> pos_x (board_pieces ?g' ! pieceId e)
                         = containerX g
                           + of_int (gridCol cell) * logicalWidth (board_pieces g ! pieceId e)
                           + logicalWidth (board_pieces g ! pieceId e) / 2
                     \<and> pos_y (board_pieces ?g' ! pieceId e)
                         = containerY g
                           + of_int (gridRow cell) * logicalHeight (board_pieces g ! pieceId e)
                           + logicalHeight (board_pieces g ! pieceId e) / 2"
      using placed by blast
  qed
next
  assume "template (pockets g ! pocketIdx) = None"
  then show "autoInsertIfSolved pocketIdx g = Some g"
    using assms by (simp add: autoInsertIfSolved_def Let_def)
next
  fix t
  assume "template (pockets g ! pocketIdx) = Some t
            \<and> length (pieces (pockets g ! pocketIdx))
                \<noteq> card {i \<in> fst ` set (pieceLayout t). i \<notin> set (solvedIds t)}"
  then show "autoInsertIfSolved pocketIdx g = Some g"
    using assms by (simp add: autoInsertIfSolved_def Let_def unsolved_count)
qed

subsection \<open>The slot invariant\<close>

lemma pocket_ok_splice_out:
  assumes "pocket_ok pocket"
  shows "pocket_ok (pocket\<lparr>pieces := splice_out k (pieces pocket)\<rparr>)"
proof -
  have "list_all (\<lambda>e. case slotIndex e of None \<Rightarrow> False | Some s \<Rightarrow> s < 16)
          (splice_out k (pieces pocket))"
    using assms set_splice_out_subset [of k "pieces pocket"]
    by (auto simp: pocket_ok_def list_all_iff)
  then show ?thesis
    using assms by (simp add: pocket_ok_def map_splice_out distinct_splice_out)
qed

lemma pocket_ok_append:
  assumes "pocket_ok pocket" "slotIndex e = Some slot" "slot < 16"
    "Some slot \<notin> slotIndex ` set (pieces pocket)" "pieceId e \<notin> pieceId ` set (pieces pocket)"
  shows "pocket_ok (pocket\<lparr>pieces := pieces pocket @ [e]\<rparr>)"
  using assms by (auto simp: pocket_ok_def)

lemma pocket_ok_empty: "pocket_ok (pocket\<lparr>pieces := []\<rparr>)"
  by (simp add: pocket_ok_def)

lemma list_all_update:
  "list_all P xs \<Longrightarrow> P y \<Longrightarrow> list_all P (xs[i := y])"
  by (metis list_all_iff insertE set_update_subset_insert subsetD)

lemma pockets_ok_nth: "pockets_ok g \<Longrightarrow> i < length (pockets g) \<Longrightarrow> pocket_ok (pockets g ! i)"
  by (simp add: pockets_ok_def list_all_length)

lemma stashPiece_pockets_ok:
  assumes "pockets_ok g" "stashPiece pieceRef targetPocket g = Some (b, g')"
  shows "pockets_ok g'"
proof (cases b)
  case False
  with assms(2) have "g' = g"
    by (auto simp: stashPiece_def Let_def split: if_splits option.splits)
  with assms(1) show ?thesis by simp
next
  case True
  define p where "p = (case targetPocket of Some t \<Rightarrow> t | None \<Rightarrow> activePocket g)"
  from assms(2) True have st: "stashPiece pieceRef targetPocket g = Some (True, g')" by simp
  from stashPiece_True [OF st]
  obtain slot where pre: "p < length (pockets g)"
      "pieceRef \<notin> pieceId ` set (pieces (pockets g ! p))"
      "findNextFreeSlotIndex (pockets g ! p) = Some slot"
    and pk: "pockets g' = (pockets g)[p := (pockets g ! p)\<lparr>pieces :=
                           pieces (pockets g ! p) @
                             [\<lparr>pieceId = pieceRef, ps_angle = angle (board_pieces g ! pieceRef),
                               slotIndex = Some slot,
                               lastWorldPos = Some \<lparr>wp_x = pos_x (board_pieces g ! pieceRef),
                                                    wp_y = pos_y (board_pieces g ! pieceRef),
                                                    wp_angle = angle (board_pieces g ! pieceRef)\<rparr>\<rparr>]\<rparr>]"
    unfolding p_def by auto
  from findNextFreeSlotIndex_Some [OF pre(3)]
  have s: "slot < 16" "Some slot \<notin> slotIndex ` set (pieces (pockets g ! p))" by simp_all
  have "pocket_ok ((pockets g ! p)\<lparr>pieces :=
                           pieces (pockets g ! p) @
                             [\<lparr>pieceId = pieceRef, ps_angle = angle (board_pieces g ! pieceRef),
                               slotIndex = Some slot,
                               lastWorldPos = Some \<lparr>wp_x = pos_x (board_pieces g ! pieceRef),
                                                    wp_y = pos_y (board_pieces g ! pieceRef),
                                                    wp_angle = angle (board_pieces g ! pieceRef)\<rparr>\<rparr>]\<rparr>)"
    using pockets_ok_nth [OF assms(1) pre(1)] s pre(2)
    by (intro pocket_ok_append [where slot = slot]) simp_all
  then show ?thesis
    using assms(1) unfolding pockets_ok_def pk by (rule list_all_update [rotated])
qed

lemma transferPiece_pockets_ok:
  assumes "pockets_ok g"
  shows "pockets_ok (snd (transferPiece f t pid g))"
proof (cases rule: transferPiece_cases [of f t pid g])
  case fail
  with assms show ?thesis by simp
next
  case (ok k slot)
  from findNextFreeSlotIndex_Some [OF ok(7)]
  have s: "slot < 16" "Some slot \<notin> slotIndex ` set (pieces (pockets g ! t))" by simp_all
  from findIndex_Some [OF ok(6)]
  have k: "pieceId (pieces (pockets g ! f) ! k) = pid" by simp
  have a: "pocket_ok ((pockets g ! f)\<lparr>pieces := splice_out k (pieces (pockets g ! f))\<rparr>)"
    using pockets_ok_nth [OF assms ok(2)] by (rule pocket_ok_splice_out)
  have b: "pocket_ok ((pockets g ! t)\<lparr>pieces := pieces (pockets g ! t)
                   @ [(pieces (pockets g ! f) ! k)\<lparr>slotIndex := Some slot\<rparr>]\<rparr>)"
    using pockets_ok_nth [OF assms ok(3)] s ok(5) k
    by (intro pocket_ok_append [where slot = slot]) simp_all
  have "list_all pocket_ok ((pockets g)
          [f := (pockets g ! f)\<lparr>pieces := splice_out k (pieces (pockets g ! f))\<rparr>,
           t := (pockets g ! t)\<lparr>pieces := pieces (pockets g ! t)
                   @ [(pieces (pockets g ! f) ! k)\<lparr>slotIndex := Some slot\<rparr>]\<rparr>])"
  proof -
    have base: "list_all pocket_ok (pockets g)" using assms by (simp add: pockets_ok_def)
    from base a have "list_all pocket_ok ((pockets g)
          [f := (pockets g ! f)\<lparr>pieces := splice_out k (pieces (pockets g ! f))\<rparr>])"
      by (rule list_all_update)
    then show ?thesis using b by (rule list_all_update)
  qed
  then show ?thesis by (simp add: ok(8) transferred_def pockets_ok_def)
qed

lemma retrievePiece_pockets:
  assumes "retrievePiece pocketIdx pid jitter g = Some g'"
  shows "pockets g' = pockets g
         \<or> (pocketIdx < length (pockets g)
            \<and> (\<exists>k. pockets g' = (pockets g)[pocketIdx := (pockets g ! pocketIdx)
                        \<lparr>pieces := splice_out k (pieces (pockets g ! pocketIdx))\<rparr>]))"
proof (cases "attached g \<and> pocketIdx < length (pockets g)")
  case False
  with assms show ?thesis by (auto simp: retrievePiece_def split: if_splits)
next
  case pre: True
  show ?thesis
  proof (cases "findIndex (\<lambda>p. pieceId p = pid) (pieces (pockets g ! pocketIdx))")
    case None
    with assms pre show ?thesis by (simp add: retrievePiece_def)
  next
    case (Some k)
    show ?thesis
    proof (cases "pieceId (pieces (pockets g ! pocketIdx) ! k) \<ge> length (board_pieces g)")
      case True
      with assms pre Some show ?thesis by (simp add: retrievePiece_def)
    next
      case False
      with assms pre Some
      have "pockets g' = (pockets g)[pocketIdx := (pockets g ! pocketIdx)
                        \<lparr>pieces := splice_out k (pieces (pockets g ! pocketIdx))\<rparr>]"
        by (auto simp: retrievePiece_def Let_def)
      with pre show ?thesis by blast
    qed
  qed
qed

lemma retrievePiece_pockets_ok:
  assumes "pockets_ok g" "retrievePiece pocketIdx pid jitter g = Some g'"
  shows "pockets_ok g'"
proof (cases "pockets g' = pockets g")
  case True
  with assms(1) show ?thesis by (simp add: pockets_ok_def)
next
  case False
  with retrievePiece_pockets [OF assms(2)] obtain k where k: "pocketIdx < length (pockets g)"
      "pockets g' = (pockets g)[pocketIdx := (pockets g ! pocketIdx)
                        \<lparr>pieces := splice_out k (pieces (pockets g ! pocketIdx))\<rparr>]"
    by blast
  have "pocket_ok ((pockets g ! pocketIdx)\<lparr>pieces := splice_out k (pieces (pockets g ! pocketIdx))\<rparr>)"
    using pockets_ok_nth [OF assms(1) k(1)] by (rule pocket_ok_splice_out)
  then show ?thesis
    using assms(1) unfolding pockets_ok_def k(2) by (rule list_all_update [rotated])
qed

lemma retrieveAll_pockets_ok:
  assumes "pockets_ok g" "retrieveAll pocketIdx jitters g = Some g'"
  shows "pockets_ok g'"
proof (cases "pockets g' = pockets g")
  case True
  with assms(1) show ?thesis by (simp add: pockets_ok_def)
next
  case False
  with assms(2) have k: "pockets g' = (pockets g)[pocketIdx := (pockets g ! pocketIdx)\<lparr>pieces := []\<rparr>]"
    by (auto simp: retrieveAll_def Let_def split: if_splits)
  show ?thesis
    using assms(1) unfolding pockets_ok_def k by (rule list_all_update) (rule pocket_ok_empty)
qed

lemma apply_op_pockets_ok:
  assumes "pockets_ok g" "apply_op op g = Some g'"
  shows "pockets_ok g'"
proof (cases op)
  case (Stash pieceRef targetPocket)
  with assms(2) obtain b where "stashPiece pieceRef targetPocket g = Some (b, g')"
    by auto
  with assms(1) show ?thesis by (rule stashPiece_pockets_ok)
next
  case (Transfer f t pid)
  with assms show ?thesis using transferPiece_pockets_ok [of g f t pid] by auto
next
  case (RetrievePiece pocketIdx pid jitter)
  with assms show ?thesis using retrievePiece_pockets_ok by auto
next
  case (RetrieveAll pocketIdx jitters)
  with assms show ?thesis using retrieveAll_pockets_ok by auto
qed

lemma run_ops_pockets_ok:
  "pockets_ok g \<Longrightarrow> run_ops ops g = Some g' \<Longrightarrow> pockets_ok g'"
proof (induction ops arbitrary: g)
  case Nil
  then show ?case by simp
next
  case (Cons op ops)
  from Cons.prems(2) obtain g1 where g1: "apply_op op g = Some g1" "run_ops ops g1 = Some g'"
    by (auto split: option.splits)
  from Cons.prems(1) g1(1) have "pockets_ok g1" by (rule apply_op_pockets_ok)
  then show ?case using g1(2) by (rule Cons.IH)
qed

lemmas piece_op_defs =
  setVisible_def setDepth_def setTint_def setAlpha_def setScale_def setScrollFactor_def
  setInteractive_def disableInteractive_def moveToActive_def moveToSolved_def addToOverlay_def
  removeFromOverlay_def attachPieceInteraction_def detachPieceInteraction_def
  movePieceToOverlay_def restorePieceLayer_def enablePieceInteraction_def

subsection \<open>The passes of the focus mode\<close>

lemma nth_list_update_total:
  "xs[i := v] ! j = (if j = i \<and> i < length xs then v else xs ! j)"
  by (cases "i < length xs") (simp_all add: nth_list_update list_update_beyond not_less)

lemma fold_invariant:
  assumes "\<And>x s. I s \<Longrightarrow> I (f x s)" "I s"
  shows "I (fold f xs s)"
  using assms(2) by (induction xs arbitrary: s) (simp_all add: assms(1))

lemma fold_establish:
  assumes est: "\<And>s. I s \<Longrightarrow> Q (f i s)"
    and inv: "\<And>x s. I s \<Longrightarrow> I (f x s)"
    and keep: "\<And>x s. x \<noteq> i \<Longrightarrow> I s \<Longrightarrow> Q s \<Longrightarrow> Q (f x s)"
    and start: "i \<in> set xs \<or> Q s" "I s"
  shows "Q (fold f xs s)"
  using start
proof (induction xs arbitrary: s)
  case Nil
  then show ?case by simp
next
  case (Cons x xs)
  have "i \<in> set xs \<or> Q (f x s)"
  proof (cases "x = i")
    case True
    then show ?thesis using est [OF Cons.prems(2)] by simp
  next
    case False
    then show ?thesis using Cons.prems keep [of x s] by auto
  qed
  moreover have "I (f x s)" using Cons.prems(2) by (rule inv)
  ultimately have "Q (fold f xs (f x s))" by (rule Cons.IH)
  then show ?case by simp
qed

lemma restorePieceLayer_fields:
  "isSolved (restorePieceLayer p) = isSolved p"
  "pos_x (restorePieceLayer p) = pos_x p" "pos_y (restorePieceLayer p) = pos_y p"
  by (simp_all add: piece_op_defs Let_def)

lemma enablePieceInteraction_fields:
  "isSolved (enablePieceInteraction p) = isSolved p"
  "pos_x (enablePieceInteraction p) = pos_x p" "pos_y (enablePieceInteraction p) = pos_y p"
  by (simp_all add: piece_op_defs split: option.splits)

lemma showInPocket_fields:
  "\<not> isSolved (showInPocket p)"
  "pos_x (showInPocket p) = pos_x p" "pos_y (showInPocket p) = pos_y p"
  by (simp_all add: showInPocket_def piece_op_defs Let_def split: option.splits)

lemma focus_view_fields:
  "isSolved (focus_view pids tids ht moved released i p) = (i \<notin> set pids \<and> isSolved p)"
  "pos_x (focus_view pids tids ht moved released i p) = pos_x p"
  "pos_y (focus_view pids tids ht moved released i p) = pos_y p"
  by (simp_all add: focus_view_def Let_def showInPocket_fields restorePieceLayer_fields
        setVisible_def setDepth_def setTint_def setAlpha_def disableInteractive_def)

lemma close_view_fields:
  "isSolved (close_view prev moved p) = isSolved p"
  "pos_x (close_view prev moved p) = pos_x p"
  "pos_y (close_view prev moved p) = pos_y p"
  by (simp_all add: close_view_def Let_def restorePieceLayer_fields enablePieceInteraction_fields
        setVisible_def setDepth_def setTint_def setAlpha_def disableInteractive_def
        setScrollFactor_def split: option.splits)

lemma applyVisibility_step_pieces:
  "board_pieces (applyVisibility_step cb pids tids ht i g)
     = (board_pieces g)[i := focus_view pids tids ht (i \<in> movedToOverlay g)
                              (i \<in> set (releasedToWorld g)) i (board_pieces g ! i)]"
  by (simp add: applyVisibility_step_def focus_view_def Let_def)

lemma applyVisibility_step_frame:
  "pockets (applyVisibility_step cb pids tids ht i g) = pockets g"
  "openPocketIdx (applyVisibility_step cb pids tids ht i g) = openPocketIdx g"
  "releasedToWorld (applyVisibility_step cb pids tids ht i g) = releasedToWorld g"
  "baselineCaptured (applyVisibility_step cb pids tids ht i g) = baselineCaptured g"
  "containerX (applyVisibility_step cb pids tids ht i g) = containerX g"
  "containerY (applyVisibility_step cb pids tids ht i g) = containerY g"
  "attached (applyVisibility_step cb pids tids ht i g) = attached g"
  by (simp_all add: applyVisibility_step_def Let_def)

lemma close_step_pieces:
  "board_pieces (close_step i g)
     = (board_pieces g)[i := close_view (prevPieceState g i) (i \<in> movedToOverlay g)
                              (board_pieces g ! i)]"
  by (simp add: close_step_def close_view_def Let_def split: option.splits)

lemma close_step_frame:
  "pockets (close_step i g) = pockets g"
  "releasedToWorld (close_step i g) = releasedToWorld g"
  "attached (close_step i g) = attached g"
  "prevPieceState (close_step i g) = prevPieceState g"
  "movedToOverlay (close_step i g) = movedToOverlay g"
  by (simp_all add: close_step_def Let_def split: option.splits)

lemma release_step_pieces:
  "board_pieces (release_step i g)
     = (board_pieces g)[i := enablePieceInteraction (setTint vividTint (setAlpha 1
                              (setVisible True (restorePieceLayer (board_pieces g ! i)))))]"
  by (simp add: release_step_def Let_def list_update_beyond)

lemma release_step_frame:
  "pockets (release_step i g) = pockets g"
  "attached (release_step i g) = attached g"
  by (simp_all add: release_step_def Let_def)

lemma focus_close_frame:
  "length (board_pieces (focus_close g)) = length (board_pieces g)
   \<and> pockets (focus_close g) = pockets g
   \<and> attached (focus_close g) = attached g
   \<and> isSolved (board_pieces (focus_close g) ! j) = isSolved (board_pieces g ! j)"
proof (cases "openPocketIdx g")
  case None
  then show ?thesis by (simp add: focus_close_def)
next
  case (Some idx)
  let ?I = "\<lambda>s. length (board_pieces s) = length (board_pieces g) \<and> pockets s = pockets g
                \<and> attached s = attached g
                \<and> isSolved (board_pieces s ! j) = isSolved (board_pieces g ! j)"
  let ?g1 = "fold close_step [0..<length (board_pieces g)] g"
  have "?I ?g1"
    by (rule fold_invariant [where I = ?I])
       (auto simp: close_step_frame close_step_pieces nth_list_update_total close_view_fields)
  then have "?I (fold release_step (releasedToWorld ?g1) ?g1)"
    by (rule fold_invariant [where I = ?I, rotated])
       (auto simp: release_step_frame release_step_pieces nth_list_update_total
          restorePieceLayer_fields enablePieceInteraction_fields
          setVisible_def setTint_def setAlpha_def)
  then show ?thesis using Some by (simp add: focus_close_def Let_def)
qed

lemma applyVisibility_Some:
  assumes "openPocketIdx g = Some idx" "idx < length (pockets g)"
  shows "applyVisibilityAndInteraction cb g =
           Some (if cb then (applyVisibility_fold cb idx g)\<lparr>baselineCaptured := True\<rparr>
                 else applyVisibility_fold cb idx g)"
  using assms by (simp add: applyVisibilityAndInteraction_def applyVisibility_fold_def Let_def)

lemma applyVisibility_fold_frame:
  "length (board_pieces (applyVisibility_fold cb idx g)) = length (board_pieces g)
   \<and> pockets (applyVisibility_fold cb idx g) = pockets g
   \<and> attached (applyVisibility_fold cb idx g) = attached g
   \<and> openPocketIdx (applyVisibility_fold cb idx g) = openPocketIdx g
   \<and> pos_x (board_pieces (applyVisibility_fold cb idx g) ! j) = pos_x (board_pieces g ! j)
   \<and> pos_y (board_pieces (applyVisibility_fold cb idx g) ! j) = pos_y (board_pieces g ! j)"
  unfolding applyVisibility_fold_def
  by (rule fold_invariant [where I = "\<lambda>s. length (board_pieces s) = length (board_pieces g)
         \<and> pockets s = pockets g \<and> attached s = attached g \<and> openPocketIdx s = openPocketIdx g
         \<and> pos_x (board_pieces s ! j) = pos_x (board_pieces g ! j)
         \<and> pos_y (board_pieces s ! j) = pos_y (board_pieces g ! j)"])
     (auto simp: applyVisibility_step_frame applyVisibility_step_pieces nth_list_update_total
        focus_view_fields)

lemma applyVisibility_fold_pocket_piece:
  assumes "i < length (board_pieces g)" "i \<in> pieceId ` set (pieces (pockets g ! idx))"
  shows "\<not> isSolved (board_pieces (applyVisibility_fold cb idx g) ! i)"
  unfolding applyVisibility_fold_def
proof (rule fold_establish [where I = "\<lambda>s. i < length (board_pieces s)" and i = i])
  show "i \<in> set [0..<length (board_pieces g)]
        \<or> \<not> isSolved (board_pieces (g\<lparr>hiddenPieces := [], pocketPieces := []\<rparr>) ! i)"
    using assms(1) by simp
  show "i < length (board_pieces (g\<lparr>hiddenPieces := [], pocketPieces := []\<rparr>))"
    using assms(1) by simp
qed (use assms(2) in \<open>simp_all add: applyVisibility_step_pieces nth_list_update_total
       focus_view_fields\<close>)


text \<open>
  Claim C10. \<open>open\<close> clears \<open>isSolved\<close> on every piece of the opened pocket, and \<open>close\<close>
  does not bring it back: a solved piece listed in the pocket is unsolved after \<open>open\<close> and
  still unsolved after the following \<open>close\<close>. (The \<open>baseline\<close> record has no field for the
  flag.)
\<close>

theorem open_close_clears_isSolved:
  assumes "pocketIdx < length (pockets g)" "i < length (board_pieces g)"
    "i \<in> pieceId ` set (pieces (pockets g ! pocketIdx))" "isSolved (board_pieces g ! i)"
  shows "\<exists>g1. focus_open pocketIdx g = Some g1
           \<and> \<not> isSolved (board_pieces g1 ! i)
           \<and> \<not> isSolved (board_pieces (focus_close g1) ! i)"
proof -
  let ?g0 = "(focus_close g)\<lparr>openPocketIdx := Some pocketIdx, baselineCaptured := False\<rparr>"
  let ?g1 = "(applyVisibility_fold True pocketIdx ?g0)\<lparr>baselineCaptured := True\<rparr>"
  have fr: "length (board_pieces ?g0) = length (board_pieces g)" "pockets ?g0 = pockets g"
    using focus_close_frame [of g] by simp_all
  have opened: "focus_open pocketIdx g = Some ?g1"
    unfolding focus_open_def
    using applyVisibility_Some [of ?g0 pocketIdx True] assms(1) fr by simp
  have a: "\<not> isSolved (board_pieces ?g1 ! i)"
    using applyVisibility_fold_pocket_piece [of i ?g0 pocketIdx True] assms fr by simp
  then have "\<not> isSolved (board_pieces (focus_close ?g1) ! i)"
    using focus_close_frame [of ?g1 i] by simp
  with opened a show ?thesis by blast
qed

subsection \<open>The restricted snap\<close>








subsection \<open>The theorems at concrete states\<close>

lemma stash_demo: "stashPiece 1 (Some 0) demo_game = Some (True, stashed_game)"
  by (simp add: stashPiece_def demo_game_def stashed_game_def demo_pieces_def empty_pocket_def
        stashed_entry_def loose_piece_def maxPiecesPerPocket_def findNextFreeSlotIndex_def
        List.map_filter_simps Let_def setAlpha_def setScale_def setVisible_def
        disableInteractive_def upt_rec)

theorem stash_retrieve_roundtrip_witness:
  "stashPiece 1 (Some 0) demo_game = Some (True, stashed_game)
   \<and> retrievePiece 0 1 (0, 0) stashed_game \<noteq> None
   \<and> pos_x (board_pieces (the (retrievePiece 0 1 (0, 0) stashed_game)) ! 1) = 400
   \<and> pos_y (board_pieces (the (retrievePiece 0 1 (0, 0) stashed_game)) ! 1) = 90
   \<and> angle (board_pieces (the (retrievePiece 0 1 (0, 0) stashed_game)) ! 1) = 90
   \<and> visible (board_pieces (the (retrievePiece 0 1 (0, 0) stashed_game)) ! 1)
   \<and> pieces (pockets (the (retrievePiece 0 1 (0, 0) stashed_game)) ! 0) = []"
proof -
  from stash_retrieve_roundtrip [OF stash_demo, of "(0, 0)"]
  obtain g2 where g2: "retrievePiece 0 1 (0, 0) stashed_game = Some g2"
    "pos_x (board_pieces g2 ! 1) = pos_x (board_pieces demo_game ! 1)"
    "pos_y (board_pieces g2 ! 1) = pos_y (board_pieces demo_game ! 1)"
    "angle (board_pieces g2 ! 1) = angle (board_pieces demo_game ! 1)"
    "visible (board_pieces g2 ! 1)"
    "pieces (pockets g2 ! 0) = pieces (pockets demo_game ! 0)"
    by blast
  then show ?thesis
    using stash_demo
    by (simp add: demo_game_def demo_pieces_def loose_piece_def empty_pocket_def)
qed

lemma focus_open_Some:
  assumes "pocketIdx < length (pockets g)"
  shows "focus_open pocketIdx g =
           Some ((applyVisibility_fold True pocketIdx
                    ((focus_close g)\<lparr>openPocketIdx := Some pocketIdx, baselineCaptured := False\<rparr>))
                 \<lparr>baselineCaptured := True\<rparr>)"
  unfolding focus_open_def
  using applyVisibility_Some [of "(focus_close g)\<lparr>openPocketIdx := Some pocketIdx, baselineCaptured := False\<rparr>" pocketIdx True]
    assms focus_close_frame [of g]
  by simp


lemma Some_True_the:
  "\<exists>y. x = Some (True, y) \<Longrightarrow> x = Some (True, snd (the x))"
  by auto

theorem transferPiece_atomic_witness:
  "fst (transferPiece 0 1 1 stashed_game)
   \<and> distinct (map pieceId (pieces (pockets stashed_game ! 0)))
   \<and> 1 \<notin> pieceId ` set (pieces (pockets (snd (transferPiece 0 1 1 stashed_game)) ! 0))
   \<and> pieceId ` set (pieces (pockets (snd (transferPiece 0 1 1 stashed_game)) ! 1)) = {1}
   \<and> 2 \<notin> pieceId ` set (pieces (pockets stashed_game ! 0))
   \<and> \<not> fst (transferPiece 0 1 2 stashed_game)
   \<and> snd (transferPiece 0 1 2 stashed_game) = stashed_game"
proof -
  have ev: "fst (transferPiece 0 1 1 stashed_game)"
    by (simp add: transferPiece_def demo_game_def demo_pieces_def empty_pocket_def loose_piece_def stashed_game_def stashed_entry_def maxPiecesPerPocket_def findNextFreeSlotIndex_def
          List.map_filter_simps Let_def splice_out_def upt_rec)
  have d: "distinct (map pieceId (pieces (pockets stashed_game ! 0)))"
    by (simp add: demo_game_def demo_pieces_def empty_pocket_def loose_piece_def stashed_game_def stashed_entry_def)
  have n2: "(0::nat) < length (pockets stashed_game)
            \<and> 2 \<notin> pieceId ` set (pieces (pockets stashed_game ! 0))"
    by (simp add: demo_game_def demo_pieces_def empty_pocket_def loose_piece_def stashed_game_def stashed_entry_def)
  from transferPiece_atomic [of 0 1 1 stashed_game] ev d
  obtain k slot where ks:
    "snd (transferPiece 0 1 1 stashed_game) =
       stashed_game\<lparr>pockets := (pockets stashed_game)
          [0 := (pockets stashed_game ! 0)\<lparr>pieces := splice_out k (pieces (pockets stashed_game ! 0))\<rparr>,
           1 := (pockets stashed_game ! 1)\<lparr>pieces := pieces (pockets stashed_game ! 1)
                  @ [(pieces (pockets stashed_game ! 0) ! k)\<lparr>slotIndex := Some slot\<rparr>]\<rparr>]\<rparr>"
    "pieceId (pieces (pockets stashed_game ! 0) ! k) = 1"
    "1 \<notin> pieceId ` set (splice_out k (pieces (pockets stashed_game ! 0)))"
    by blast
  have a: "1 \<notin> pieceId ` set (pieces (pockets (snd (transferPiece 0 1 1 stashed_game)) ! 0))"
    using ks(3) unfolding ks(1) by (simp add: demo_game_def demo_pieces_def empty_pocket_def loose_piece_def stashed_game_def stashed_entry_def)
  have b: "pieceId ` set (pieces (pockets (snd (transferPiece 0 1 1 stashed_game)) ! 1)) = {1}"
    using ks(2) unfolding ks(1) by (simp add: demo_game_def demo_pieces_def empty_pocket_def loose_piece_def stashed_game_def stashed_entry_def)
  from transferPiece_atomic [of 0 1 2 stashed_game] n2
  have c: "\<not> fst (transferPiece 0 1 2 stashed_game)
           \<and> snd (transferPiece 0 1 2 stashed_game) = stashed_game"
    by blast
  from ev d a b n2 c show ?thesis by blast
qed

theorem canCaptureTemplate_iff_witness:
  "attached template_game \<and> (0::nat) < length (pockets template_game)
   \<and> template (pockets template_game ! 0) = Some demo_template
   \<and> \<not> isSolved (board_pieces template_game ! 1)
   \<and> \<not> canCaptureTemplate 0 template_game
   \<and> template (pockets template_game ! 1) = None
   \<and> canCaptureTemplate 1 template_game"
proof -
  have a: "attached template_game" "(0::nat) < length (pockets template_game)"
    "(1::nat) < length (pockets template_game)"
    by (simp_all add: demo_game_def demo_pieces_def empty_pocket_def loose_piece_def stashed_game_def stashed_entry_def demo_template_def template_game_def)
  have t0: "template (pockets template_game ! 0) = Some demo_template"
    and t1: "template (pockets template_game ! 1) = None"
    by (simp_all add: demo_game_def demo_pieces_def empty_pocket_def loose_piece_def stashed_game_def stashed_entry_def demo_template_def template_game_def)
  have u: "\<not> isSolved (board_pieces template_game ! 1)"
    by (simp add: demo_game_def demo_pieces_def empty_pocket_def loose_piece_def stashed_game_def stashed_entry_def demo_template_def template_game_def)
  have k: "1 \<in> fst ` set (pieceLayout demo_template)"
    by (simp add: demo_game_def demo_pieces_def empty_pocket_def loose_piece_def stashed_game_def stashed_entry_def demo_template_def template_game_def)
  from canCaptureTemplate_iff [OF a(1) a(2)] t0 u k
  have "\<not> canCaptureTemplate 0 template_game" by auto
  moreover from canCaptureTemplate_iff [OF a(1) a(3)] t1
  have "canCaptureTemplate 1 template_game" by simp
  ultimately show ?thesis using a t0 t1 u by blast
qed

theorem autoInsertIfSolved_spec_witness:
  "attached template_game \<and> (0::nat) < length (pockets template_game)
   \<and> autoInsertIfSolved 0 template_game \<noteq> None
   \<and> pieces (pockets (the (autoInsertIfSolved 0 template_game)) ! 0) = []
   \<and> template (pockets (the (autoInsertIfSolved 0 template_game)) ! 0) = None
   \<and> isSolved (board_pieces (the (autoInsertIfSolved 0 template_game)) ! 1)
   \<and> pos_x (board_pieces (the (autoInsertIfSolved 0 template_game)) ! 1) = 150
   \<and> pos_y (board_pieces (the (autoInsertIfSolved 0 template_game)) ! 1) = 200
   \<and> autoInsertIfSolved 1 template_game = Some template_game
   \<and> autoInsertIfSolved 0 (template_game\<lparr>pockets := (pockets template_game)
          [0 := (pockets template_game ! 0)\<lparr>pieces := []\<rparr>]\<rparr>)
       = Some (template_game\<lparr>pockets := (pockets template_game)
          [0 := (pockets template_game ! 0)\<lparr>pieces := []\<rparr>]\<rparr>)"
proof -
  let ?g = template_game
  let ?h = "template_game\<lparr>pockets := (pockets template_game)
          [0 := (pockets template_game ! 0)\<lparr>pieces := []\<rparr>]\<rparr>"
  have a: "attached ?g" "(0::nat) < length (pockets ?g)" "(1::nat) < length (pockets ?g)"
    "attached ?h" "(0::nat) < length (pockets ?h)"
    by (simp_all add: demo_game_def demo_pieces_def empty_pocket_def loose_piece_def stashed_game_def stashed_entry_def demo_template_def template_game_def)
  have t0: "template (pockets ?g ! 0) = Some demo_template"
    and t1: "template (pockets ?g ! 1) = None"
    and th: "template (pockets ?h ! 0) = Some demo_template"
    by (simp_all add: demo_game_def demo_pieces_def empty_pocket_def loose_piece_def stashed_game_def stashed_entry_def demo_template_def template_game_def)
  have ids: "distinct (map pieceId (pieces (pockets ?g ! 0)))"
    "pieceId ` set (pieces (pockets ?g ! 0))
       = {i \<in> fst ` set (pieceLayout demo_template). i \<notin> set (solvedIds demo_template)}"
    by (auto simp: demo_game_def demo_pieces_def empty_pocket_def loose_piece_def stashed_game_def stashed_entry_def demo_template_def template_game_def)
  have e: "stashed_entry \<in> set (pieces (pockets ?g ! 0))"
    "pieceId stashed_entry < length (board_pieces ?g)"
    "pieceId stashed_entry = 1"
    by (simp_all add: demo_game_def demo_pieces_def empty_pocket_def loose_piece_def stashed_game_def stashed_entry_def demo_template_def template_game_def)
  from autoInsertIfSolved_spec [OF a(1) a(2)] t0 ids
  obtain g' where g': "autoInsertIfSolved 0 ?g = Some g'" "pieces (pockets g' ! 0) = []"
    "template (pockets g' ! 0) = None"
    "\<forall>e \<in> set (pieces (pockets ?g ! 0)). pieceId e < length (board_pieces ?g) \<longrightarrow>
        isSolved (board_pieces g' ! pieceId e)
        \<and> (\<exists>cell. map_of (pieceLayout demo_template) (pieceId e) = Some cell
             \<and> pos_x (board_pieces g' ! pieceId e)
                 = containerX ?g + of_int (gridCol cell) * logicalWidth (board_pieces ?g ! pieceId e)
                   + logicalWidth (board_pieces ?g ! pieceId e) / 2
             \<and> pos_y (board_pieces g' ! pieceId e)
                 = containerY ?g + of_int (gridRow cell) * logicalHeight (board_pieces ?g ! pieceId e)
                   + logicalHeight (board_pieces ?g ! pieceId e) / 2)"
    by blast
  from g'(4) e obtain cell where cell:
    "isSolved (board_pieces g' ! 1)"
    "map_of (pieceLayout demo_template) 1 = Some cell"
    "pos_x (board_pieces g' ! 1)
       = containerX ?g + of_int (gridCol cell) * logicalWidth (board_pieces ?g ! 1)
         + logicalWidth (board_pieces ?g ! 1) / 2"
    "pos_y (board_pieces g' ! 1)
       = containerY ?g + of_int (gridRow cell) * logicalHeight (board_pieces ?g ! 1)
         + logicalHeight (board_pieces ?g ! 1) / 2"
    by force
  from cell(2) have c: "cell = \<lparr>gridRow = 0, gridCol = 1\<rparr>" by (simp add: demo_game_def demo_pieces_def empty_pocket_def loose_piece_def stashed_game_def stashed_entry_def demo_template_def template_game_def)
  have px: "pos_x (board_pieces g' ! 1) = 150" "pos_y (board_pieces g' ! 1) = 200"
    using cell(3,4) unfolding c by (simp_all add: demo_game_def demo_pieces_def empty_pocket_def loose_piece_def stashed_game_def stashed_entry_def demo_template_def template_game_def)
  from autoInsertIfSolved_spec [OF a(1) a(3)] t1
  have n1: "autoInsertIfSolved 1 ?g = Some ?g" by blast
  have cnt: "length (pieces (pockets ?h ! 0))
               \<noteq> card {i \<in> fst ` set (pieceLayout demo_template). i \<notin> set (solvedIds demo_template)}"
  proof -
    have "{i \<in> fst ` set (pieceLayout demo_template). i \<notin> set (solvedIds demo_template)} = {1}"
      by (auto simp: demo_game_def demo_pieces_def empty_pocket_def loose_piece_def stashed_game_def stashed_entry_def demo_template_def template_game_def)
    then show ?thesis by (simp add: demo_game_def demo_pieces_def empty_pocket_def loose_piece_def stashed_game_def stashed_entry_def demo_template_def template_game_def)
  qed
  from autoInsertIfSolved_spec [OF a(4) a(5)] th cnt
  have n2: "autoInsertIfSolved 0 ?h = Some ?h" by blast
  from a g' cell(1) px n1 n2 show ?thesis by simp
qed

lemma run_demo_ops: "run_ops demo_ops demo_game \<noteq> None"
  by (simp add: demo_ops_def stashPiece_def transferPiece_def retrievePiece_def retrieveAll_def
        demo_game_def demo_pieces_def empty_pocket_def loose_piece_def maxPiecesPerPocket_def findNextFreeSlotIndex_def
        List.map_filter_simps Let_def splice_out_def upt_rec)

text \<open>
  The claim C5 as written fails: piece 1, stashed in pocket 0, is stashed again into
  pocket 1; the call returns true and the piece id is then listed in both pockets.
\<close>

theorem stashPiece_twice_counterexample:
  "stashPiece 1 (Some 0) demo_game = Some (True, stashed_game)
   \<and> 1 \<in> pieceId ` set (pieces (pockets stashed_game ! 0))
   \<and> stashPiece 1 (Some 1) stashed_game \<noteq> Some (False, stashed_game)
   \<and> map_option fst (stashPiece 1 (Some 1) stashed_game) = Some True
   \<and> 1 \<in> pieceId ` set (pieces (pockets (snd (the (stashPiece 1 (Some 1) stashed_game))) ! 0))
   \<and> 1 \<in> pieceId ` set (pieces (pockets (snd (the (stashPiece 1 (Some 1) stashed_game))) ! 1))"
proof -
  have "map_option fst (stashPiece 1 (Some 1) stashed_game) = Some True
   \<and> 1 \<in> pieceId ` set (pieces (pockets (snd (the (stashPiece 1 (Some 1) stashed_game))) ! 0))
   \<and> 1 \<in> pieceId ` set (pieces (pockets (snd (the (stashPiece 1 (Some 1) stashed_game))) ! 1))"
    by (simp add: stashPiece_def demo_game_def demo_pieces_def empty_pocket_def loose_piece_def stashed_game_def stashed_entry_def maxPiecesPerPocket_def findNextFreeSlotIndex_def
          List.map_filter_simps Let_def upt_rec)
  moreover from this have "stashPiece 1 (Some 1) stashed_game \<noteq> Some (False, stashed_game)"
    by auto
  moreover have "1 \<in> pieceId ` set (pieces (pockets stashed_game ! 0))"
    by (simp add: demo_game_def demo_pieces_def empty_pocket_def loose_piece_def stashed_game_def stashed_entry_def)
  ultimately show ?thesis using stash_demo by blast
qed


theorem open_close_clears_isSolved_witness:
  "(0::nat) < length (pockets hinted_game) \<and> 1 < length (board_pieces hinted_game)
   \<and> 1 \<in> pieceId ` set (pieces (pockets hinted_game ! 0))
   \<and> isSolved (board_pieces hinted_game ! 1)
   \<and> focus_open 0 hinted_game \<noteq> None
   \<and> \<not> isSolved (board_pieces (the (focus_open 0 hinted_game)) ! 1)
   \<and> \<not> isSolved (board_pieces (focus_close (the (focus_open 0 hinted_game))) ! 1)"
proof -
  have pre: "(0::nat) < length (pockets hinted_game)" "1 < length (board_pieces hinted_game)"
    "1 \<in> pieceId ` set (pieces (pockets hinted_game ! 0))"
    "isSolved (board_pieces hinted_game ! 1)"
    by (simp_all add: demo_game_def demo_pieces_def empty_pocket_def loose_piece_def stashed_game_def stashed_entry_def hinted_game_def setPieceSolved_def piece_op_defs)
  from open_close_clears_isSolved [OF pre]
  obtain g1 where "focus_open 0 hinted_game = Some g1" "\<not> isSolved (board_pieces g1 ! 1)"
    "\<not> isSolved (board_pieces (focus_close g1) ! 1)"
    by blast
  with pre show ?thesis by simp
qed

subsection \<open>What open followed by close restores\<close>

lemma fold_invariant_on:
  assumes "\<And>x s. x \<in> set xs \<Longrightarrow> I s \<Longrightarrow> I (f x s)" "I s"
  shows "I (fold f xs s)"
  using assms by (induction xs arbitrary: s) simp_all

lemma fold_once:
  assumes "distinct xs" "i \<in> set xs" "I s"
    and before: "\<And>x s. x \<noteq> i \<Longrightarrow> I s \<Longrightarrow> I (f x s)"
    and at: "\<And>s. I s \<Longrightarrow> Q (f i s)"
    and after: "\<And>x s. x \<noteq> i \<Longrightarrow> Q s \<Longrightarrow> Q (f x s)"
  shows "Q (fold f xs s)"
  using assms(1-3)
proof (induction xs arbitrary: s)
  case Nil
  then show ?case by simp
next
  case (Cons x xs)
  show ?case
  proof (cases "x = i")
    case True
    with Cons.prems have "i \<notin> set xs" "Q (f x s)" using at by auto
    then have "Q (fold f xs (f x s))"
      by (intro fold_invariant_on [where I = Q]) (auto intro: after)
    then show ?thesis by simp
  next
    case False
    with Cons.prems have "distinct xs" "i \<in> set xs" "I (f x s)" using before by auto
    then have "Q (fold f xs (f x s))" by (rule Cons.IH)
    then show ?thesis by simp
  qed
qed

lemma applyVisibility_step_prev:
  "prevPieceState (applyVisibility_step cb pids tids ht x s)
     = (if cb \<and> \<not> baselineCaptured s \<and> prevPieceState s x = None
        then (prevPieceState s)(x \<mapsto> baseline_of (board_pieces s ! x))
        else prevPieceState s)"
  by (auto simp: applyVisibility_step_def Let_def)

lemma applyVisibility_step_moved:
  "movedToOverlay (applyVisibility_step cb pids tids ht x s)
     = (if x \<in> set pids then insert x (movedToOverlay s) else movedToOverlay s - {x})"
  by (auto simp: applyVisibility_step_def Let_def)

lemma applyVisibility_fold_at:
  assumes "i < length (board_pieces g)" "prevPieceState g i = None" "\<not> baselineCaptured g"
    "i \<notin> movedToOverlay g" "releasedToWorld g = []"
  shows "board_pieces (applyVisibility_fold True idx g) ! i
           = focus_view (map pieceId (pieces (pockets g ! idx)))
               (case template (pockets g ! idx) of None \<Rightarrow> [] | Some t \<Rightarrow> layout_ids t)
               (template (pockets g ! idx) \<noteq> None) False False i (board_pieces g ! i)
         \<and> prevPieceState (applyVisibility_fold True idx g) i = Some (baseline_of (board_pieces g ! i))
         \<and> (i \<in> movedToOverlay (applyVisibility_fold True idx g)
              \<longleftrightarrow> i \<in> pieceId ` set (pieces (pockets g ! idx)))
         \<and> releasedToWorld (applyVisibility_fold True idx g) = []
         \<and> length (board_pieces (applyVisibility_fold True idx g)) = length (board_pieces g)"
  unfolding applyVisibility_fold_def
proof (rule fold_once [where i = i and I = "\<lambda>s. i < length (board_pieces s)
          \<and> length (board_pieces s) = length (board_pieces g)
          \<and> board_pieces s ! i = board_pieces g ! i \<and> prevPieceState s i = None
          \<and> \<not> baselineCaptured s \<and> i \<notin> movedToOverlay s \<and> releasedToWorld s = []"])
  show "distinct [0..<length (board_pieces g)]" by simp
  show "i \<in> set [0..<length (board_pieces g)]" using assms(1) by simp
  show "i < length (board_pieces (g\<lparr>hiddenPieces := [], pocketPieces := []\<rparr>))
          \<and> length (board_pieces (g\<lparr>hiddenPieces := [], pocketPieces := []\<rparr>)) = length (board_pieces g)
          \<and> board_pieces (g\<lparr>hiddenPieces := [], pocketPieces := []\<rparr>) ! i = board_pieces g ! i
          \<and> prevPieceState (g\<lparr>hiddenPieces := [], pocketPieces := []\<rparr>) i = None
          \<and> \<not> baselineCaptured (g\<lparr>hiddenPieces := [], pocketPieces := []\<rparr>)
          \<and> i \<notin> movedToOverlay (g\<lparr>hiddenPieces := [], pocketPieces := []\<rparr>)
          \<and> releasedToWorld (g\<lparr>hiddenPieces := [], pocketPieces := []\<rparr>) = []"
    using assms by simp
qed (auto simp: applyVisibility_step_pieces applyVisibility_step_prev applyVisibility_step_moved
       applyVisibility_step_frame nth_list_update_total)

lemma close_fold_at:
  assumes "i < length (board_pieces g)"
  shows "board_pieces (fold close_step [0..<length (board_pieces g)] g) ! i
           = close_view (prevPieceState g i) (i \<in> movedToOverlay g) (board_pieces g ! i)
         \<and> releasedToWorld (fold close_step [0..<length (board_pieces g)] g) = releasedToWorld g"
proof (rule fold_once [where i = i and I = "\<lambda>s. i < length (board_pieces s)
          \<and> board_pieces s ! i = board_pieces g ! i \<and> prevPieceState s = prevPieceState g
          \<and> movedToOverlay s = movedToOverlay g \<and> releasedToWorld s = releasedToWorld g"])
  show "distinct [0..<length (board_pieces g)]" by simp
  show "i \<in> set [0..<length (board_pieces g)]" using assms by simp
  show "i < length (board_pieces g) \<and> board_pieces g ! i = board_pieces g ! i
        \<and> prevPieceState g = prevPieceState g \<and> movedToOverlay g = movedToOverlay g
        \<and> releasedToWorld g = releasedToWorld g"
    using assms by simp
qed (auto simp: close_step_pieces close_step_frame nth_list_update_total)

lemma close_after_view:
  "visible (close_view (Some (baseline_of p)) m (focus_view pids tids ht False False i p)) = visible p"
  "depth (close_view (Some (baseline_of p)) m (focus_view pids tids ht False False i p)) = depth p"
  "scrollFactorX (close_view (Some (baseline_of p)) m (focus_view pids tids ht False False i p))
     = scrollFactorX p"
  "scrollFactorY (close_view (Some (baseline_of p)) m (focus_view pids tids ht False False i p))
     = scrollFactorY p"
  "tintTopLeft (close_view (Some (baseline_of p)) m (focus_view pids tids ht False False i p))
     = tintTopLeft p"
  "input_enabled (close_view (Some (baseline_of p)) m (focus_view pids tids ht False False i p))
     = input_enabled p"
  "alpha (close_view (Some (baseline_of p)) m (focus_view pids tids ht False False i p))
     = (if input_enabled p then 1 else alpha p)"
  by (simp_all add: close_view_def baseline_of_def Let_def piece_op_defs split: option.splits)

text \<open>
  What an \<open>open\<close> followed at once by \<open>close\<close> does restore, from a state in which no pocket
  is open: visibility, depth, scroll factor, tint and the enabled state of the input of
  every piece. Alpha comes back only for a piece whose input was disabled; a piece whose
  input was enabled ends with alpha 1.
\<close>

lemma open_close_restores:
  assumes "openPocketIdx g = None" "prevPieceState g = Map.empty" "movedToOverlay g = {}"
    "releasedToWorld g = []" "pocketIdx < length (pockets g)" "i < length (board_pieces g)"
  shows "\<exists>g1. focus_open pocketIdx g = Some g1
           \<and> visible (board_pieces (focus_close g1) ! i) = visible (board_pieces g ! i)
           \<and> depth (board_pieces (focus_close g1) ! i) = depth (board_pieces g ! i)
           \<and> scrollFactorX (board_pieces (focus_close g1) ! i) = scrollFactorX (board_pieces g ! i)
           \<and> scrollFactorY (board_pieces (focus_close g1) ! i) = scrollFactorY (board_pieces g ! i)
           \<and> tintTopLeft (board_pieces (focus_close g1) ! i) = tintTopLeft (board_pieces g ! i)
           \<and> input_enabled (board_pieces (focus_close g1) ! i) = input_enabled (board_pieces g ! i)
           \<and> alpha (board_pieces (focus_close g1) ! i)
               = (if input_enabled (board_pieces g ! i) then 1 else alpha (board_pieces g ! i))"
proof -
  let ?g0 = "g\<lparr>openPocketIdx := Some pocketIdx, baselineCaptured := False\<rparr>"
  let ?gf = "applyVisibility_fold True pocketIdx ?g0"
  let ?g1 = "?gf\<lparr>baselineCaptured := True\<rparr>"
  let ?p = "board_pieces g ! i"
  let ?pids = "map pieceId (pieces (pockets g ! pocketIdx))"
  let ?tids = "case template (pockets g ! pocketIdx) of None \<Rightarrow> [] | Some t \<Rightarrow> layout_ids t"
  let ?ht = "template (pockets g ! pocketIdx) \<noteq> None"
  have cl: "focus_close g = g" using assms(1) by (simp add: focus_close_def)
  have opened: "focus_open pocketIdx g = Some ?g1"
    using focus_open_Some [OF assms(5)] by (simp add: cl)
  have at: "board_pieces ?gf ! i = focus_view ?pids ?tids ?ht False False i ?p"
    "prevPieceState ?gf i = Some (baseline_of ?p)"
    "i \<in> movedToOverlay ?gf \<longleftrightarrow> i \<in> set ?pids"
    "releasedToWorld ?gf = []"
    "length (board_pieces ?gf) = length (board_pieces g)"
    using applyVisibility_fold_at [of i ?g0 pocketIdx] assms by simp_all
  let ?c = "fold close_step [0..<length (board_pieces ?g1)] ?g1"
  have c: "board_pieces ?c ! i
             = close_view (Some (baseline_of ?p)) (i \<in> set ?pids)
                 (focus_view ?pids ?tids ?ht False False i ?p)"
      "releasedToWorld ?c = []"
    using close_fold_at [of i ?g1] at assms(6) by simp_all
  have op: "openPocketIdx ?g1 = Some pocketIdx"
    using applyVisibility_fold_frame [of True pocketIdx ?g0] by simp
  have "board_pieces (focus_close ?g1) ! i
          = close_view (Some (baseline_of ?p)) (i \<in> set ?pids)
              (focus_view ?pids ?tids ?ht False False i ?p)"
    using op c by (simp add: focus_close_def Let_def)
  then show ?thesis using opened by (simp add: close_after_view)
qed

text \<open>
  Claim C1. From a state in which no pocket is open, \<open>open(idx)\<close> followed at once by
  \<open>close()\<close> returns and gives every piece back exactly the visibility, depth, scroll
  factor, alpha, tint and enabled state of its input that it had before \<open>open\<close>. The pieces
  are those of the game, whose alpha is 1: every write of a piece's alpha in the program is
  \<open>setAlpha(1)\<close> or the restore of a recorded value.
\<close>

theorem open_close_round_trip:
  assumes "openPocketIdx g = None" "prevPieceState g = Map.empty" "movedToOverlay g = {}"
    "releasedToWorld g = []" "pocketIdx < length (pockets g)" "i < length (board_pieces g)"
    "alpha (board_pieces g ! i) = 1"
  shows "\<exists>g1. focus_open pocketIdx g = Some g1
           \<and> visible (board_pieces (focus_close g1) ! i) = visible (board_pieces g ! i)
           \<and> depth (board_pieces (focus_close g1) ! i) = depth (board_pieces g ! i)
           \<and> scrollFactorX (board_pieces (focus_close g1) ! i) = scrollFactorX (board_pieces g ! i)
           \<and> scrollFactorY (board_pieces (focus_close g1) ! i) = scrollFactorY (board_pieces g ! i)
           \<and> alpha (board_pieces (focus_close g1) ! i) = alpha (board_pieces g ! i)
           \<and> tintTopLeft (board_pieces (focus_close g1) ! i) = tintTopLeft (board_pieces g ! i)
           \<and> input_enabled (board_pieces (focus_close g1) ! i) = input_enabled (board_pieces g ! i)"
proof -
  from open_close_restores [OF assms(1-6)]
  obtain g1 where g1: "focus_open pocketIdx g = Some g1"
    "visible (board_pieces (focus_close g1) ! i) = visible (board_pieces g ! i)"
    "depth (board_pieces (focus_close g1) ! i) = depth (board_pieces g ! i)"
    "scrollFactorX (board_pieces (focus_close g1) ! i) = scrollFactorX (board_pieces g ! i)"
    "scrollFactorY (board_pieces (focus_close g1) ! i) = scrollFactorY (board_pieces g ! i)"
    "tintTopLeft (board_pieces (focus_close g1) ! i) = tintTopLeft (board_pieces g ! i)"
    "input_enabled (board_pieces (focus_close g1) ! i) = input_enabled (board_pieces g ! i)"
    "alpha (board_pieces (focus_close g1) ! i)
       = (if input_enabled (board_pieces g ! i) then 1 else alpha (board_pieces g ! i))"
    by blast
  from g1(8) assms(7)
  have "alpha (board_pieces (focus_close g1) ! i) = alpha (board_pieces g ! i)" by simp
  with g1(1-7) show ?thesis by blast
qed

theorem open_close_round_trip_witness:
  "openPocketIdx template_game = None \<and> prevPieceState template_game = Map.empty
   \<and> movedToOverlay template_game = {} \<and> releasedToWorld template_game = []
   \<and> (0::nat) < length (pockets template_game)
   \<and> (0::nat) < length (board_pieces template_game)
   \<and> alpha (board_pieces template_game ! 0) = 1
   \<and> alpha (board_pieces template_game ! 1) = 1
   \<and> focus_open 0 template_game \<noteq> None
   \<and> visible (board_pieces (focus_close (the (focus_open 0 template_game))) ! 0)
   \<and> input_enabled (board_pieces (focus_close (the (focus_open 0 template_game))) ! 0)
   \<and> depth (board_pieces (focus_close (the (focus_open 0 template_game))) ! 0) = 1
   \<and> alpha (board_pieces (focus_close (the (focus_open 0 template_game))) ! 0) = 1
   \<and> tintTopLeft (board_pieces (focus_close (the (focus_open 0 template_game))) ! 0) = 0xffffff
   \<and> \<not> visible (board_pieces (focus_close (the (focus_open 0 template_game))) ! 1)
   \<and> \<not> input_enabled (board_pieces (focus_close (the (focus_open 0 template_game))) ! 1)
   \<and> alpha (board_pieces (focus_close (the (focus_open 0 template_game))) ! 1) = 1"
proof -
  have pre: "openPocketIdx template_game = None" "prevPieceState template_game = Map.empty"
    "movedToOverlay template_game = {}" "releasedToWorld template_game = []"
    "(0::nat) < length (pockets template_game)"
    by (simp_all add: demo_game_def demo_pieces_def empty_pocket_def loose_piece_def
          stashed_game_def stashed_entry_def demo_template_def template_game_def)
  have len: "(0::nat) < length (board_pieces template_game)"
    "(1::nat) < length (board_pieces template_game)"
    by (simp_all add: demo_game_def demo_pieces_def empty_pocket_def loose_piece_def
          stashed_game_def stashed_entry_def demo_template_def template_game_def)
  have p0: "alpha (board_pieces template_game ! 0) = 1"
    "visible (board_pieces template_game ! 0)" "input_enabled (board_pieces template_game ! 0)"
    "depth (board_pieces template_game ! 0) = 1"
    "tintTopLeft (board_pieces template_game ! 0) = 0xffffff"
    by (simp_all add: demo_game_def demo_pieces_def empty_pocket_def loose_piece_def
          stashed_game_def stashed_entry_def demo_template_def template_game_def)
  have p1: "alpha (board_pieces template_game ! 1) = 1"
    "\<not> visible (board_pieces template_game ! 1)"
    "\<not> input_enabled (board_pieces template_game ! 1)"
    by (simp_all add: demo_game_def demo_pieces_def empty_pocket_def loose_piece_def
          stashed_game_def stashed_entry_def demo_template_def template_game_def)
  from open_close_round_trip [OF pre len(1) p0(1)]
  obtain g1 where a: "focus_open 0 template_game = Some g1"
    "visible (board_pieces (focus_close g1) ! 0) = visible (board_pieces template_game ! 0)"
    "depth (board_pieces (focus_close g1) ! 0) = depth (board_pieces template_game ! 0)"
    "alpha (board_pieces (focus_close g1) ! 0) = alpha (board_pieces template_game ! 0)"
    "tintTopLeft (board_pieces (focus_close g1) ! 0) = tintTopLeft (board_pieces template_game ! 0)"
    "input_enabled (board_pieces (focus_close g1) ! 0)
       = input_enabled (board_pieces template_game ! 0)"
    by blast
  from open_close_round_trip [OF pre len(2) p1(1)]
  obtain g2 where b: "focus_open 0 template_game = Some g2"
    "visible (board_pieces (focus_close g2) ! 1) = visible (board_pieces template_game ! 1)"
    "alpha (board_pieces (focus_close g2) ! 1) = alpha (board_pieces template_game ! 1)"
    "input_enabled (board_pieces (focus_close g2) ! 1)
       = input_enabled (board_pieces template_game ! 1)"
    by blast
  from a(1) b(1) have eq: "g2 = g1" by simp
  from pre len p0 p1 a b [unfolded eq] show ?thesis by simp
qed

subsection \<open>Pockets without a common id\<close>

lemma pockets_disjoint_iff:
  "pockets_disjoint g \<longleftrightarrow>
     (\<forall>i<length (pockets g). \<forall>j<length (pockets g). i \<noteq> j \<longrightarrow>
        pieceId ` set (pieces (pockets g ! i)) \<inter> pieceId ` set (pieces (pockets g ! j)) = {})"
  unfolding pockets_disjoint_def list_all_iff by fastforce

lemma stashed_ids_nth:
  "i < length (pockets g) \<Longrightarrow> pieceId ` set (pieces (pockets g ! i)) \<subseteq> set (stashed_ids g)"
  by (force simp: stashed_ids_def)

lemma disjoint_update_shrink:
  assumes "\<forall>i<length ps. \<forall>j<length ps. i \<noteq> j \<longrightarrow> ids_at ps i \<inter> ids_at ps j = {}"
    "pieceId ` set (pieces q) \<subseteq> ids_at ps p"
  shows "\<forall>i<length (ps[p := q]). \<forall>j<length (ps[p := q]). i \<noteq> j \<longrightarrow>
           ids_at (ps[p := q]) i \<inter> ids_at (ps[p := q]) j = {}"
proof (intro allI impI)
  fix i j assume ij: "i < length (ps[p := q])" "j < length (ps[p := q])" "i \<noteq> j"
  have sub: "ids_at (ps[p := q]) k \<subseteq> ids_at ps k" if "k < length ps" for k
    using assms(2) that by (cases "k = p") (auto simp: ids_at_def)
  from ij assms(1) have "ids_at ps i \<inter> ids_at ps j = {}" by simp
  with sub [of i] sub [of j] ij show "ids_at (ps[p := q]) i \<inter> ids_at (ps[p := q]) j = {}"
    by auto
qed

lemma disjoint_update_add:
  assumes "\<forall>i<length ps. \<forall>j<length ps. i \<noteq> j \<longrightarrow> ids_at ps i \<inter> ids_at ps j = {}"
    "pieceId ` set (pieces q) \<subseteq> insert r (ids_at ps p)"
    "\<forall>j<length ps. j \<noteq> p \<longrightarrow> r \<notin> ids_at ps j"
  shows "\<forall>i<length (ps[p := q]). \<forall>j<length (ps[p := q]). i \<noteq> j \<longrightarrow>
           ids_at (ps[p := q]) i \<inter> ids_at (ps[p := q]) j = {}"
proof (intro allI impI)
  fix i j assume ij: "i < length (ps[p := q])" "j < length (ps[p := q])" "i \<noteq> j"
  have other: "ids_at (ps[p := q]) k = ids_at ps k" if "k \<noteq> p" for k
    using that by (simp add: ids_at_def)
  have self: "ids_at (ps[p := q]) p \<subseteq> insert r (ids_at ps p)" if "p < length ps"
    using assms(2) that by (simp add: ids_at_def)
  from ij assms(1) have d: "ids_at ps i \<inter> ids_at ps j = {}" by simp
  show "ids_at (ps[p := q]) i \<inter> ids_at (ps[p := q]) j = {}"
  proof (cases "i = p")
    case True
    with ij have "j \<noteq> p" "r \<notin> ids_at ps j" using assms(3) by auto
    with True ij d self other [of j] show ?thesis by auto
  next
    case False
    show ?thesis
    proof (cases "j = p")
      case True
      with ij have "r \<notin> ids_at ps i" using assms(3) by auto
      with True ij d self other [of i] False show ?thesis by auto
    next
      case False
      with \<open>i \<noteq> p\<close> d other show ?thesis by simp
    qed
  qed
qed

lemma pockets_disjoint_ids_at:
  "pockets_disjoint g \<longleftrightarrow>
     (\<forall>i<length (pockets g). \<forall>j<length (pockets g). i \<noteq> j \<longrightarrow>
        ids_at (pockets g) i \<inter> ids_at (pockets g) j = {})"
  by (simp add: pockets_disjoint_iff ids_at_def)

lemma stashPiece_disjoint:
  assumes "pockets_disjoint g" "stashPiece pieceRef targetPocket g = Some (b, g')"
    "pieceRef \<notin> set (stashed_ids g)"
  shows "pockets_disjoint g'"
proof (cases b)
  case False
  with assms(2) have "g' = g"
    by (auto simp: stashPiece_def Let_def split: if_splits option.splits)
  with assms(1) show ?thesis by simp
next
  case True
  define p where "p = (case targetPocket of Some t \<Rightarrow> t | None \<Rightarrow> activePocket g)"
  from assms(2) True have st: "stashPiece pieceRef targetPocket g = Some (True, g')" by simp
  from stashPiece_True [OF st]
  obtain e where pk: "pockets g' = (pockets g)[p := (pockets g ! p)\<lparr>pieces :=
                           pieces (pockets g ! p) @ [e]\<rparr>]" "pieceId e = pieceRef"
    unfolding p_def by force
  have fresh: "\<forall>j<length (pockets g). j \<noteq> p \<longrightarrow> pieceRef \<notin> ids_at (pockets g) j"
    using assms(3) stashed_ids_nth [of _ g] by (auto simp: ids_at_def)
  show ?thesis
    unfolding pockets_disjoint_ids_at pk(1)
    by (rule disjoint_update_add [where r = pieceRef])
       (use assms(1) fresh pk(2) in \<open>auto simp: pockets_disjoint_ids_at ids_at_def\<close>)
qed

lemma transferPiece_disjoint:
  assumes "pockets_disjoint g" "pockets_ok g"
  shows "pockets_disjoint (snd (transferPiece f t pid g))"
proof (cases rule: transferPiece_cases [of f t pid g])
  case fail
  with assms show ?thesis by simp
next
  case (ok k slot)
  let ?from = "(pockets g ! f)\<lparr>pieces := splice_out k (pieces (pockets g ! f))\<rparr>"
  let ?to = "(pockets g ! t)\<lparr>pieces := pieces (pockets g ! t)
                   @ [(pieces (pockets g ! f) ! k)\<lparr>slotIndex := Some slot\<rparr>]\<rparr>"
  let ?ps1 = "(pockets g)[f := ?from]"
  from findIndex_Some [OF ok(6)]
  have k: "k < length (pieces (pockets g ! f))" "pieceId (pieces (pockets g ! f) ! k) = pid"
    by simp_all
  have d0: "\<forall>i<length (pockets g). \<forall>j<length (pockets g). i \<noteq> j \<longrightarrow>
              ids_at (pockets g) i \<inter> ids_at (pockets g) j = {}"
    using assms(1) by (simp add: pockets_disjoint_ids_at)
  have d1: "\<forall>i<length ?ps1. \<forall>j<length ?ps1. i \<noteq> j \<longrightarrow> ids_at ?ps1 i \<inter> ids_at ?ps1 j = {}"
    using d0 by (rule disjoint_update_shrink)
       (use set_splice_out_subset [of k "pieces (pockets g ! f)"] in \<open>auto simp: ids_at_def\<close>)
  have inf: "pid \<in> ids_at (pockets g) f"
    using k by (auto simp: ids_at_def intro!: image_eqI [where x = "pieces (pockets g ! f) ! k"])
  have gone: "pid \<notin> ids_at ?ps1 f"
  proof -
    have "distinct (map pieceId (pieces (pockets g ! f)))"
      using pockets_ok_nth [OF assms(2) ok(2)] by (simp add: pocket_ok_def)
    then have "map pieceId (pieces (pockets g ! f)) ! k
            \<notin> set (splice_out k (map pieceId (pieces (pockets g ! f))))"
      using k(1) by (intro splice_out_removes) simp_all
    then show ?thesis using k ok(2) by (simp add: ids_at_def map_splice_out [symmetric])
  qed
  have fresh: "\<forall>j<length ?ps1. j \<noteq> t \<longrightarrow> pid \<notin> ids_at ?ps1 j"
  proof (intro allI impI)
    fix j assume j: "j < length ?ps1" "j \<noteq> t"
    show "pid \<notin> ids_at ?ps1 j"
    proof (cases "j = f")
      case True
      with gone show ?thesis by simp
    next
      case False
      with j d0 ok(2) inf have "pid \<notin> ids_at (pockets g) j" by auto
      with False show ?thesis by (simp add: ids_at_def)
    qed
  qed
  have tt: "?ps1 ! t = pockets g ! t" using ok(1) by simp
  have "\<forall>i<length (?ps1[t := ?to]). \<forall>j<length (?ps1[t := ?to]). i \<noteq> j \<longrightarrow>
           ids_at (?ps1[t := ?to]) i \<inter> ids_at (?ps1[t := ?to]) j = {}"
    using d1
  proof (rule disjoint_update_add [where r = pid])
    show "pieceId ` set (pieces ?to) \<subseteq> insert pid (ids_at ?ps1 t)"
      using k(2) tt by (auto simp: ids_at_def)
    show "\<forall>j<length ?ps1. j \<noteq> t \<longrightarrow> pid \<notin> ids_at ?ps1 j" by (rule fresh)
  qed
  then show ?thesis
    by (simp add: ok(8) transferred_def pockets_disjoint_ids_at)
qed

lemma retrievePiece_disjoint:
  assumes "pockets_disjoint g" "retrievePiece pocketIdx pid jitter g = Some g'"
  shows "pockets_disjoint g'"
proof (cases "pockets g' = pockets g")
  case True
  with assms(1) show ?thesis by (simp add: pockets_disjoint_ids_at)
next
  case False
  with retrievePiece_pockets [OF assms(2)] obtain k where
      k: "pockets g' = (pockets g)[pocketIdx := (pockets g ! pocketIdx)
                        \<lparr>pieces := splice_out k (pieces (pockets g ! pocketIdx))\<rparr>]"
    by blast
  show ?thesis
    unfolding pockets_disjoint_ids_at k
    by (rule disjoint_update_shrink)
       (use assms(1) set_splice_out_subset [of k "pieces (pockets g ! pocketIdx)"]
         in \<open>auto simp: pockets_disjoint_ids_at ids_at_def\<close>)
qed

lemma retrieveAll_disjoint:
  assumes "pockets_disjoint g" "retrieveAll pocketIdx jitters g = Some g'"
  shows "pockets_disjoint g'"
proof (cases "pockets g' = pockets g")
  case True
  with assms(1) show ?thesis by (simp add: pockets_disjoint_ids_at)
next
  case False
  with assms(2) have k: "pockets g' = (pockets g)[pocketIdx := (pockets g ! pocketIdx)\<lparr>pieces := []\<rparr>]"
    by (auto simp: retrieveAll_def Let_def split: if_splits)
  show ?thesis
    unfolding pockets_disjoint_ids_at k
    by (rule disjoint_update_shrink)
       (use assms(1) in \<open>auto simp: pockets_disjoint_ids_at ids_at_def\<close>)
qed

lemma run_ops_disjoint:
  "pockets_ok g \<Longrightarrow> pockets_disjoint g \<Longrightarrow> stashes_fresh ops g \<Longrightarrow> run_ops ops g = Some g'
     \<Longrightarrow> pockets_disjoint g'"
proof (induction ops arbitrary: g)
  case Nil
  then show ?case by simp
next
  case (Cons op ops)
  from Cons.prems(4) obtain g1 where g1: "apply_op op g = Some g1" "run_ops ops g1 = Some g'"
    by (auto split: option.splits)
  from Cons.prems(1) g1(1) have ok1: "pockets_ok g1" by (rule apply_op_pockets_ok)
  from Cons.prems(3) g1(1) have fr: "stashes_fresh ops g1" by simp
  have "pockets_disjoint g1"
  proof (cases op)
    case (Stash pieceRef targetPocket)
    with g1(1) obtain b where "stashPiece pieceRef targetPocket g = Some (b, g1)" by auto
    moreover from Cons.prems(3) Stash have "pieceRef \<notin> set (stashed_ids g)" by simp
    ultimately show ?thesis using Cons.prems(2) stashPiece_disjoint by blast
  next
    case (Transfer f t pid)
    with g1(1) Cons.prems(1,2) show ?thesis using transferPiece_disjoint [of g f t pid] by auto
  next
    case (RetrievePiece pocketIdx pid jitter)
    with g1(1) Cons.prems(2) show ?thesis using retrievePiece_disjoint by auto
  next
    case (RetrieveAll pocketIdx jitters)
    with g1(1) Cons.prems(2) show ?thesis using retrieveAll_disjoint by auto
  qed
  with ok1 fr g1(2) show ?case by (intro Cons.IH)
qed

lemma fresh_demo_ops: "stashes_fresh demo_ops demo_game"
  by (simp add: demo_ops_def stashed_ids_def stashPiece_def transferPiece_def retrievePiece_def
        retrieveAll_def demo_game_def demo_pieces_def empty_pocket_def loose_piece_def maxPiecesPerPocket_def findNextFreeSlotIndex_def
        List.map_filter_simps Let_def splice_out_def upt_rec)

text \<open>
  Claim C5, amended. \<open>stashPiece\<close> returns false and changes nothing when the target pocket
  already holds 16 pieces or already holds the piece. Otherwise, for an attached manager and
  a piece of the board, it appends the piece with the lowest slot index below 16 that the
  target pocket does not use, records its position and angle as \<open>lastWorldPos\<close>, hides it
  and disables its input. After any run of stash, transfer and retrieve calls from a state
  with well-formed pockets, the slot indices of each pocket are below 16 and distinct, and
  a piece id occurs at most once in each pocket; and no id is in two pockets as long as no
  stash call of the run is for a piece that some pocket holds. (The call itself does not
  refuse a piece held by another pocket: see the counterexample.)
\<close>

theorem stashPiece_slots:
  "(p < length (pockets g)
      \<and> (16 \<le> length (pieces (pockets g ! p))
          \<or> pieceRef \<in> pieceId ` set (pieces (pockets g ! p)))
     \<longrightarrow> stashPiece pieceRef (Some p) g = Some (False, g))
   \<and> (attached g \<and> p < length (pockets g) \<and> length (pieces (pockets g ! p)) < 16
        \<and> pieceRef < length (board_pieces g)
        \<and> pieceRef \<notin> pieceId ` set (pieces (pockets g ! p))
     \<longrightarrow> (\<exists>slot g'. stashPiece pieceRef (Some p) g = Some (True, g')
            \<and> slot < 16 \<and> Some slot \<notin> slotIndex ` set (pieces (pockets g ! p))
            \<and> (\<forall>j<slot. Some j \<in> slotIndex ` set (pieces (pockets g ! p)))
            \<and> pieces (pockets g' ! p) = pieces (pockets g ! p) @
                 [\<lparr>pieceId = pieceRef, ps_angle = angle (board_pieces g ! pieceRef),
                   slotIndex = Some slot,
                   lastWorldPos = Some \<lparr>wp_x = pos_x (board_pieces g ! pieceRef),
                                        wp_y = pos_y (board_pieces g ! pieceRef),
                                        wp_angle = angle (board_pieces g ! pieceRef)\<rparr>\<rparr>]
            \<and> \<not> visible (board_pieces g' ! pieceRef)
            \<and> \<not> input_enabled (board_pieces g' ! pieceRef)))
   \<and> (pockets_ok g \<and> run_ops ops g = Some g' \<longrightarrow> pockets_ok g')
   \<and> (pockets_ok g \<and> pockets_disjoint g \<and> stashes_fresh ops g \<and> run_ops ops g = Some g'
        \<longrightarrow> pockets_disjoint g')"
proof ((rule conjI; (rule conjI)?; (rule conjI)?); rule impI)
  assume "p < length (pockets g)
      \<and> (16 \<le> length (pieces (pockets g ! p))
          \<or> pieceRef \<in> pieceId ` set (pieces (pockets g ! p)))"
  then show "stashPiece pieceRef (Some p) g = Some (False, g)"
    by (auto simp: stashPiece_def Let_def maxPiecesPerPocket_def list_ex_pieceId
          split: option.splits)
next
  assume h: "attached g \<and> p < length (pockets g) \<and> length (pieces (pockets g ! p)) < 16
        \<and> pieceRef < length (board_pieces g)
        \<and> pieceRef \<notin> pieceId ` set (pieces (pockets g ! p))"
  then obtain slot where slot: "findNextFreeSlotIndex (pockets g ! p) = Some slot"
    using findNextFreeSlotIndex_exists by blast
  from findNextFreeSlotIndex_Some [OF slot] h slot
  show "\<exists>slot g'. stashPiece pieceRef (Some p) g = Some (True, g')
            \<and> slot < 16 \<and> Some slot \<notin> slotIndex ` set (pieces (pockets g ! p))
            \<and> (\<forall>j<slot. Some j \<in> slotIndex ` set (pieces (pockets g ! p)))
            \<and> pieces (pockets g' ! p) = pieces (pockets g ! p) @
                 [\<lparr>pieceId = pieceRef, ps_angle = angle (board_pieces g ! pieceRef),
                   slotIndex = Some slot,
                   lastWorldPos = Some \<lparr>wp_x = pos_x (board_pieces g ! pieceRef),
                                        wp_y = pos_y (board_pieces g ! pieceRef),
                                        wp_angle = angle (board_pieces g ! pieceRef)\<rparr>\<rparr>]
            \<and> \<not> visible (board_pieces g' ! pieceRef)
            \<and> \<not> input_enabled (board_pieces g' ! pieceRef)"
    by (intro exI [of _ slot])
       (simp add: stashPiece_def Let_def maxPiecesPerPocket_def list_ex_pieceId
          setAlpha_def setScale_def setVisible_def disableInteractive_def)
next
  assume "pockets_ok g \<and> run_ops ops g = Some g'"
  then show "pockets_ok g'" using run_ops_pockets_ok by blast
next
  assume "pockets_ok g \<and> pockets_disjoint g \<and> stashes_fresh ops g \<and> run_ops ops g = Some g'"
  then show "pockets_disjoint g'" using run_ops_disjoint by blast
qed

theorem stashPiece_slots_witness:
  "(0::nat) < length (pockets stashed_game)
   \<and> 1 \<in> pieceId ` set (pieces (pockets stashed_game ! 0))
   \<and> stashPiece 1 (Some 0) stashed_game = Some (False, stashed_game)
   \<and> attached demo_game \<and> length (pieces (pockets demo_game ! 0)) < 16
   \<and> map_option fst (stashPiece 1 (Some 0) demo_game) = Some True
   \<and> slotIndex (last (pieces (pockets (snd (the (stashPiece 1 (Some 0) demo_game))) ! 0))) = Some 0
   \<and> \<not> visible (board_pieces (snd (the (stashPiece 1 (Some 0) demo_game))) ! 1)
   \<and> \<not> input_enabled (board_pieces (snd (the (stashPiece 1 (Some 0) demo_game))) ! 1)
   \<and> pockets_ok demo_game
   \<and> pockets_disjoint demo_game \<and> stashes_fresh demo_ops demo_game
   \<and> run_ops demo_ops demo_game \<noteq> None
   \<and> pockets_ok (the (run_ops demo_ops demo_game))
   \<and> pockets_disjoint (the (run_ops demo_ops demo_game))"
proof -
  have a: "(0::nat) < length (pockets stashed_game)
           \<and> (16 \<le> length (pieces (pockets stashed_game ! 0))
               \<or> 1 \<in> pieceId ` set (pieces (pockets stashed_game ! 0)))"
    by (simp add: demo_game_def demo_pieces_def empty_pocket_def loose_piece_def stashed_game_def stashed_entry_def)
  from stashPiece_slots [of 0 stashed_game 1] a
  have r1: "stashPiece 1 (Some 0) stashed_game = Some (False, stashed_game)" by blast
  have b: "attached demo_game \<and> (0::nat) < length (pockets demo_game)
           \<and> length (pieces (pockets demo_game ! 0)) < 16
           \<and> 1 < length (board_pieces demo_game)
           \<and> 1 \<notin> pieceId ` set (pieces (pockets demo_game ! 0))"
    by (simp add: demo_game_def demo_pieces_def empty_pocket_def loose_piece_def stashed_game_def stashed_entry_def)
  from stashPiece_slots [of 0 demo_game 1] b
  obtain slot g' where s: "stashPiece 1 (Some 0) demo_game = Some (True, g')"
    "\<forall>j<slot. Some j \<in> slotIndex ` set (pieces (pockets demo_game ! 0))"
    "pieces (pockets g' ! 0) = pieces (pockets demo_game ! 0) @
                 [\<lparr>pieceId = 1, ps_angle = angle (board_pieces demo_game ! 1),
                   slotIndex = Some slot,
                   lastWorldPos = Some \<lparr>wp_x = pos_x (board_pieces demo_game ! 1),
                                        wp_y = pos_y (board_pieces demo_game ! 1),
                                        wp_angle = angle (board_pieces demo_game ! 1)\<rparr>\<rparr>]"
    "\<not> visible (board_pieces g' ! 1)" "\<not> input_enabled (board_pieces g' ! 1)"
    by blast
  have "slot = 0"
  proof (rule ccontr)
    assume "slot \<noteq> 0"
    then have "Some 0 \<in> slotIndex ` set (pieces (pockets demo_game ! 0))" using s(2) by simp
    then show False by (simp add: demo_game_def demo_pieces_def empty_pocket_def loose_piece_def stashed_game_def stashed_entry_def)
  qed
  with s have r2: "map_option fst (stashPiece 1 (Some 0) demo_game) = Some True
     \<and> slotIndex (last (pieces (pockets (snd (the (stashPiece 1 (Some 0) demo_game))) ! 0))) = Some 0
     \<and> \<not> visible (board_pieces (snd (the (stashPiece 1 (Some 0) demo_game))) ! 1)
     \<and> \<not> input_enabled (board_pieces (snd (the (stashPiece 1 (Some 0) demo_game))) ! 1)"
    by simp
  have ok: "pockets_ok demo_game"
    by (simp add: pockets_ok_def pocket_ok_def demo_game_def demo_pieces_def empty_pocket_def loose_piece_def stashed_game_def stashed_entry_def)
  have dj: "pockets_disjoint demo_game"
    by (simp add: pockets_disjoint_def demo_game_def demo_pieces_def empty_pocket_def loose_piece_def stashed_game_def stashed_entry_def upt_rec)
  from run_demo_ops obtain final where f: "run_ops demo_ops demo_game = Some final" by blast
  from stashPiece_slots [of 0 demo_game 1 demo_ops final] ok dj fresh_demo_ops f
  have "pockets_ok final \<and> pockets_disjoint final" by blast
  with f have r3: "run_ops demo_ops demo_game \<noteq> None
                   \<and> pockets_ok (the (run_ops demo_ops demo_game))
                   \<and> pockets_disjoint (the (run_ops demo_ops demo_game))" by simp
  from a r1 b r2 ok dj fresh_demo_ops r3 show ?thesis by (simp add: demo_game_def demo_pieces_def empty_pocket_def loose_piece_def stashed_game_def stashed_entry_def)
qed

end
